theory Spec2Isabelle
  imports Main "HOL-Library.Sublist" "HOL-Library.Char_ord" "HOL-Library.List_Lexorder"
begin

section \<open>Go library functions on byte strings\<close>

text \<open>
  A Go \<open>string\<close> is a sequence of bytes; it is modelled as a \<^typ>\<open>string\<close>
  (a list of \<^typ>\<open>char\<close>, one per byte). \<open>strings.HasPrefix\<close> and
  \<open>strings.HasSuffix\<close> are \<^const>\<open>prefix\<close> and \<^const>\<open>suffix\<close>.
\<close>

abbreviation NL :: char where "NL \<equiv> CHR 0x0A"

abbreviation TAB :: char where "TAB \<equiv> CHR 0x09"

definition HasPrefix :: "string \<Rightarrow> string \<Rightarrow> bool" where
  "HasPrefix s p = prefix p s"

definition HasSuffix :: "string \<Rightarrow> string \<Rightarrow> bool" where
  "HasSuffix s p = suffix p s"

text \<open>\<open>strings.Index\<close>: the offset of the first occurrence, \<open>None\<close> for Go's \<open>-1\<close>.\<close>

fun Index :: "string \<Rightarrow> string \<Rightarrow> nat option" where
  "Index [] sep = (if sep = [] then Some 0 else None)"
| "Index (c # cs) sep = (if prefix sep (c # cs) then Some 0 else map_option Suc (Index cs sep))"

definition Contains :: "string \<Rightarrow> string \<Rightarrow> bool" where
  "Contains s substr = (Index s substr \<noteq> None)"

text \<open>
  \<open>strings.Split\<close> cuts at the first occurrence of the separator and goes on behind
  it, as the loop of \<open>genSplit\<close> does. The source only splits at \<open>"\n---"\<close>,
  \<open>"\n"\<close> and the path separator; for the empty separator Go explodes the string
  into its UTF-8 sequences, which are single bytes for ASCII text.
\<close>

function Split :: "string \<Rightarrow> string \<Rightarrow> string list" where
  "Split s sep =
     (if sep = [] then map (\<lambda>c. [c]) s
      else case Index s sep of
             None \<Rightarrow> [s]
           | Some m \<Rightarrow> take m s # Split (drop (m + length sep) s) sep)"
  by pat_completeness auto

termination
  by (relation "measure (\<lambda>(s, sep). length s)") (auto, case_tac s, auto)

declare Split.simps [simp del]

fun Join :: "string list \<Rightarrow> string \<Rightarrow> string" where
  "Join [] sep = []"
| "Join [a] sep = a"
| "Join (a # b # elems) sep = a @ sep @ Join (b # elems) sep"

text \<open>
  \<open>strings.TrimSpace\<close> removes the leading and trailing white space runes of
  \<open>unicode.IsSpace\<close>. On bytes these are the six ASCII characters and the UTF-8
  encodings of U+0085, U+00A0, U+1680, U+2000 to U+200A, U+2028, U+2029, U+202F, U+205F
  and U+3000; no encoding is a prefix of another one, and a byte that starts no valid
  encoding decodes to U+FFFD, which is not white space.
\<close>

definition spaceRunes :: "string list" where
  "spaceRunes =
     [[CHR 0x09], [CHR 0x0A], [CHR 0x0B], [CHR 0x0C], [CHR 0x0D], [CHR 0x20],
      [CHR 0xC2, CHR 0x85], [CHR 0xC2, CHR 0xA0],
      [CHR 0xE1, CHR 0x9A, CHR 0x80],
      [CHR 0xE2, CHR 0x80, CHR 0x80], [CHR 0xE2, CHR 0x80, CHR 0x81],
      [CHR 0xE2, CHR 0x80, CHR 0x82], [CHR 0xE2, CHR 0x80, CHR 0x83],
      [CHR 0xE2, CHR 0x80, CHR 0x84], [CHR 0xE2, CHR 0x80, CHR 0x85],
      [CHR 0xE2, CHR 0x80, CHR 0x86], [CHR 0xE2, CHR 0x80, CHR 0x87],
      [CHR 0xE2, CHR 0x80, CHR 0x88], [CHR 0xE2, CHR 0x80, CHR 0x89],
      [CHR 0xE2, CHR 0x80, CHR 0x8A],
      [CHR 0xE2, CHR 0x80, CHR 0xA8], [CHR 0xE2, CHR 0x80, CHR 0xA9],
      [CHR 0xE2, CHR 0x80, CHR 0xAF],
      [CHR 0xE2, CHR 0x81, CHR 0x9F],
      [CHR 0xE3, CHR 0x80, CHR 0x80]]"

function dropRunes :: "string list \<Rightarrow> string \<Rightarrow> string" where
  "dropRunes rs s =
     (case find (\<lambda>r. prefix r s) rs of
        None \<Rightarrow> s
      | Some r \<Rightarrow> (if r = [] then s else dropRunes rs (drop (length r) s)))"
  by pat_completeness auto

termination
  by (relation "measure (\<lambda>(rs, s). length s)") (auto simp: find_Some_iff prefix_def)

declare dropRunes.simps [simp del]

definition TrimLeftSpace :: "string \<Rightarrow> string" where
  "TrimLeftSpace s = dropRunes spaceRunes s"

definition TrimRightSpace :: "string \<Rightarrow> string" where
  "TrimRightSpace s = rev (dropRunes (map rev spaceRunes) (rev s))"

definition TrimSpace :: "string \<Rightarrow> string" where
  "TrimSpace s = TrimRightSpace (TrimLeftSpace s)"

section \<open>Secret redaction (package sync)\<close>

text \<open>
  \<open>splitYAMLDocuments\<close>: the parts between the \<open>"\n---"\<close> boundaries; every part
  but the first gets its \<open>---\<close> back.
\<close>

fun splitLoop :: "nat \<Rightarrow> string list \<Rightarrow> string list \<Rightarrow> string list" where
  "splitLoop i [] docs = docs"
| "splitLoop i (part # parts) docs =
     splitLoop (i + 1) parts (if i = 0 then docs @ [part] else docs @ [''---'' @ part])"

definition splitYAMLDocuments :: "string \<Rightarrow> string list" where
  "splitYAMLDocuments manifest = splitLoop 0 (Split manifest (NL # ''---'')) []"

text \<open>
  \<open>joinYAMLDocuments\<close>: the third argument is the content of the
  \<open>strings.Builder\<close>. Before every document but the first, a newline is written when
  the builder is not empty and does not end in one, and \<open>"---\n"\<close> when the
  document does not start with \<open>---\<close>.
\<close>

fun joinLoop :: "nat \<Rightarrow> string list \<Rightarrow> string \<Rightarrow> string" where
  "joinLoop i [] result = result"
| "joinLoop i (doc # docs) result =
     joinLoop (i + 1) docs
       ((if i > 0 then
           (let str = result;
                result1 = (if length str > 0 \<and> \<not> HasSuffix str [NL] then result @ [NL] else result)
            in if \<not> HasPrefix doc ''---'' then result1 @ ''---'' @ [NL] else result1)
         else result) @ doc)"

definition joinYAMLDocuments :: "string list \<Rightarrow> string" where
  "joinYAMLDocuments docs = (if length docs = 0 then [] else joinLoop 0 docs [])"

text \<open>
  \<open>isSecretDocument\<close> matches the regular expression
  \<open>(?m)^kind:\s*Secret\s*$\<close>. In Go's syntax \<open>\s\<close> is one of tab, newline, form
  feed, carriage return and space; with the flag \<open>m\<close>, \<open>^\<close> matches at the start
  of the text and behind every newline, \<open>$\<close> at the end of the text and before every
  newline. \<open>reTail\<close> reads \<open>\s*$\<close>, \<open>reSecret\<close> reads \<open>\s*Secret\s*$\<close>,
  \<open>reKind\<close> the expression behind \<open>^\<close>, and \<open>reSearch\<close> tries every position,
  its first argument telling whether the position starts a line.
\<close>

definition reSpace :: "char \<Rightarrow> bool" where
  "reSpace c = (c = TAB \<or> c = NL \<or> c = CHR 0x0C \<or> c = CHR 0x0D \<or> c = CHR '' '')"

fun reTail :: "string \<Rightarrow> bool" where
  "reTail [] = True"
| "reTail (c # cs) = (c = NL \<or> (reSpace c \<and> reTail cs))"

fun reSecret :: "string \<Rightarrow> bool" where
  "reSecret [] = False"
| "reSecret (c # cs) =
     ((prefix ''Secret'' (c # cs) \<and> reTail (drop 6 (c # cs))) \<or> (reSpace c \<and> reSecret cs))"

definition reKind :: "string \<Rightarrow> bool" where
  "reKind s = (prefix ''kind:'' s \<and> reSecret (drop 5 s))"

fun reSearch :: "bool \<Rightarrow> string \<Rightarrow> bool" where
  "reSearch bol [] = (bol \<and> reKind [])"
| "reSearch bol (c # cs) = ((bol \<and> reKind (c # cs)) \<or> reSearch (c = NL) cs)"

definition isSecretDocument :: "string \<Rightarrow> bool" where
  "isSecretDocument doc = reSearch True doc"

text \<open>
  \<open>countIndent\<close>: the range loop stops at the first rune that is neither a space
  nor a tab; both are single bytes, and no byte of a longer UTF-8 sequence equals one.
\<close>

fun countIndentLoop :: "int \<Rightarrow> string \<Rightarrow> int" where
  "countIndentLoop count [] = count"
| "countIndentLoop count (ch # line) =
     (if ch = CHR '' '' then countIndentLoop (count + 1) line
      else if ch = TAB then countIndentLoop (count + 2) line
      else count)"

definition countIndent :: "string \<Rightarrow> int" where
  "countIndent line = countIndentLoop 0 line"

definition dataPatterns :: "string list" where
  "dataPatterns = [''data:'', ''stringData:'', ''binaryData:'']"

definition placeholder :: string where
  "placeholder = ''# REDACTED - secrets are not included in shadow diffs''"

text \<open>The variables of the loop of \<open>redactSecretDocument\<close>.\<close>

record loopState =
  skipUntilIndent :: int
  redactedField :: string
  result :: "string list"

text \<open>
  The inner loop over \<open>dataPatterns\<close>: the first pattern the trimmed line equals, or
  starts with followed by a space, emits the line and the placeholder and sets the block
  to skip, unless the trimmed line contains \<open>{}\<close> or \<open>{ }\<close>; then the loop breaks.
\<close>

fun matchPatterns :: "string list \<Rightarrow> string \<Rightarrow> string \<Rightarrow> loopState \<Rightarrow> loopState" where
  "matchPatterns [] line trimmed st = st"
| "matchPatterns (pattern # patterns) line trimmed st =
     (if trimmed = pattern \<or> HasPrefix trimmed (pattern @ '' '') then
        (let indent = countIndent line;
             st1 = st\<lparr>result := result st @ [line]\<rparr>;
             nextIndent = replicate (nat (indent + 2)) (CHR '' '');
             st2 = st1\<lparr>result := result st1 @ [nextIndent @ placeholder]\<rparr>;
             st3 = st2\<lparr>redactedField := pattern, skipUntilIndent := indent\<rparr>
         in if Contains trimmed ''{}'' \<or> Contains trimmed ''{ }''
            then st3\<lparr>skipUntilIndent := - 1\<rparr>
            else st3)
      else matchPatterns patterns line trimmed st)"

text \<open>One iteration of the outer loop, for the line with index \<open>i\<close>.\<close>

definition redactStep :: "nat \<Rightarrow> string \<Rightarrow> loopState \<Rightarrow> loopState" where
  "redactStep i line st =
     (if skipUntilIndent st \<ge> 0 \<and> (line = [] \<or> countIndent line > skipUntilIndent st) then st
      else
        (let st0 = (if skipUntilIndent st \<ge> 0 then st\<lparr>skipUntilIndent := - 1\<rparr> else st);
             trimmed = TrimSpace line;
             st1 = matchPatterns dataPatterns line trimmed st0
         in if skipUntilIndent st1 \<ge> 0 \<and> redactedField st1 \<noteq> [] then st1\<lparr>redactedField := []\<rparr>
            else if i > 0 \<and> skipUntilIndent st1 \<ge> 0 then st1
            else st1\<lparr>result := result st1 @ [line]\<rparr>))"

fun redactLoop :: "nat \<Rightarrow> string list \<Rightarrow> loopState \<Rightarrow> loopState" where
  "redactLoop i [] st = st"
| "redactLoop i (line # lines) st = redactLoop (i + 1) lines (redactStep i line st)"

definition initState :: loopState where
  "initState = \<lparr>skipUntilIndent = - 1, redactedField = [], result = []\<rparr>"

text \<open>The lines the loop emits for a list of lines, and the document put together again.\<close>

definition redactLines :: "string list \<Rightarrow> string list" where
  "redactLines lines = result (redactLoop 0 lines initState)"

definition redactSecretDocument :: "string \<Rightarrow> string" where
  "redactSecretDocument doc = Join (redactLines (Split doc [NL])) [NL]"

text \<open>\<open>RedactSecrets\<close>: every document goes through \<open>redactDoc\<close>, the body of its loop.\<close>

definition redactDoc :: "string \<Rightarrow> string" where
  "redactDoc doc = (if isSecretDocument doc then redactSecretDocument doc else doc)"

fun redactDocs :: "string list \<Rightarrow> string list \<Rightarrow> string list" where
  "redactDocs [] res = res"
| "redactDocs (doc # docs) res = redactDocs docs (res @ [redactDoc doc])"

definition RedactSecrets :: "string \<Rightarrow> string" where
  "RedactSecrets manifest = joinYAMLDocuments (redactDocs (splitYAMLDocuments manifest) [])"

text \<open>
  Notions for stating the properties of the loop: the test of the inner loop on a
  trimmed line, its test for an inline value, and whether the outer loop, having read
  the lines \<open>pre\<close>, is skipping a block that the next line belongs to.
\<close>

definition matchesDataPattern :: "string \<Rightarrow> bool" where
  "matchesDataPattern trimmed =
     list_ex (\<lambda>pattern. trimmed = pattern \<or> HasPrefix trimmed (pattern @ '' '')) dataPatterns"

definition inlineEmpty :: "string \<Rightarrow> bool" where
  "inlineEmpty trimmed = (Contains trimmed ''{}'' \<or> Contains trimmed ''{ }'')"

definition skipped :: "loopState \<Rightarrow> string \<Rightarrow> bool" where
  "skipped st line =
     (skipUntilIndent st \<ge> 0 \<and> (line = [] \<or> countIndent line > skipUntilIndent st))"

definition lineReached :: "string list \<Rightarrow> string \<Rightarrow> bool" where
  "lineReached pre line = (\<not> skipped (redactLoop 0 pre initState) line)"

definition placeholderLine :: "string \<Rightarrow> string" where
  "placeholderLine key = replicate (nat (countIndent key + 2)) (CHR '' '') @ placeholder"

section \<open>OCI registry detection (package sync)\<close>

definition ociRegistryPrefixes :: "string list" where
  "ociRegistryPrefixes =
     [''docker.io/'', ''ghcr.io/'', ''quay.io/'', ''registry.k8s.io/'', ''gcr.io/'',
      ''public.ecr.aws/'', ''mcr.microsoft.com/'']"

text \<open>The loop over \<open>ociRegistryPrefixes\<close> returns at the first prefix that matches.\<close>

fun anyPrefix :: "string list \<Rightarrow> string \<Rightarrow> bool" where
  "anyPrefix [] url = False"
| "anyPrefix (p # ps) url = (if HasPrefix url p then True else anyPrefix ps url)"

definition IsOCIRegistry :: "string \<Rightarrow> bool" where
  "IsOCIRegistry url =
     (if HasPrefix url ''oci://'' then True else anyPrefix ociRegistryPrefixes url)"

definition NormalizeOCIURL :: "string \<Rightarrow> string" where
  "NormalizeOCIURL url = (if HasPrefix url ''oci://'' then url else ''oci://'' @ url)"

section \<open>ArgoCD Application sources (package argocd)\<close>

record HelmConfig =
  ReleaseName :: string
  ValueFiles :: "string list"
  Values :: string

text \<open>The pointer field \<open>Helm *HelmConfig\<close> is an option: \<open>nil\<close> is \<open>None\<close>.\<close>

record Source =
  RepoURL :: string
  TargetRevision :: string
  Path :: string
  Chart :: string
  Helm :: "HelmConfig option"
  Ref :: string

record Application =
  Name :: string
  Namespace :: string
  Sources :: "Source list"
  Source :: "Source option"

definition IsHelmSource :: "Source \<Rightarrow> bool" where
  "IsHelmSource s = (Chart s \<noteq> [])"

definition IsKustomizeSource :: "Source \<Rightarrow> bool" where
  "IsKustomizeSource s = (Path s \<noteq> [] \<and> Chart s = [])"

definition IsRefSource :: "Source \<Rightarrow> bool" where
  "IsRefSource s = (Ref s \<noteq> [])"

text \<open>
  The range loop over \<open>a.Sources\<close> appends every source the test accepts, in order;
  the single \<open>a.Source\<close> (\<open>nil\<close> is \<open>None\<close>) is looked at afterwards.
\<close>

fun appendIf :: "(Source \<Rightarrow> bool) \<Rightarrow> Source list \<Rightarrow> Source list \<Rightarrow> Source list" where
  "appendIf t acc [] = acc"
| "appendIf t acc (s # ss) = appendIf t (if t s then acc @ [s] else acc) ss"

definition GetHelmSources :: "Application \<Rightarrow> Source list" where
  "GetHelmSources a =
     (let helmSources = appendIf IsHelmSource [] (Sources a)
      in case Source a of
           Some s \<Rightarrow> (if IsHelmSource s then helmSources @ [s] else helmSources)
         | None \<Rightarrow> helmSources)"

definition GetKustomizeSources :: "Application \<Rightarrow> Source list" where
  "GetKustomizeSources a =
     (let kustomizeSources = appendIf IsKustomizeSource [] (Sources a)
      in case Source a of
           Some s \<Rightarrow> (if IsKustomizeSource s then kustomizeSources @ [s] else kustomizeSources)
         | None \<Rightarrow> kustomizeSources)"

section \<open>Value files of a Helm source (package argocd)\<close>

text \<open>
  \<open>ResolveValueFiles\<close> asks the file system whether a file exists and joins paths
  with \<open>filepath.Join\<close>. Both are parameters of the model: \<open>pathJoin repoPath
  localPath\<close> is the joined path, and \<open>notExist p\<close> tells whether \<open>os.Stat p\<close> fails
  with an error that \<open>os.IsNotExist\<close> accepts. The error carries the two strings of the
  message.
\<close>

datatype resolveError = ValueFileNotFound string string

definition TrimPrefix :: "string \<Rightarrow> string \<Rightarrow> string" where
  "TrimPrefix s p = (if HasPrefix s p then drop (length p) s else s)"

fun resolveLoop ::
  "(string \<Rightarrow> string \<Rightarrow> string) \<Rightarrow> (string \<Rightarrow> bool) \<Rightarrow> string \<Rightarrow> string list \<Rightarrow> string list
   \<Rightarrow> resolveError + string list" where
  "resolveLoop pathJoin notExist repoPath [] resolved = Inr resolved"
| "resolveLoop pathJoin notExist repoPath (vf # valueFiles) resolved =
     (if HasPrefix vf ''$values/'' then
        (let localPath = TrimPrefix vf ''$values/'';
             fullPath = pathJoin repoPath localPath
         in if notExist fullPath then Inl (ValueFileNotFound fullPath vf)
            else resolveLoop pathJoin notExist repoPath valueFiles (resolved @ [fullPath]))
      else resolveLoop pathJoin notExist repoPath valueFiles (resolved @ [vf]))"

definition ResolveValueFiles ::
  "(string \<Rightarrow> string \<Rightarrow> string) \<Rightarrow> (string \<Rightarrow> bool) \<Rightarrow> string list \<Rightarrow> string
   \<Rightarrow> resolveError + string list" where
  "ResolveValueFiles pathJoin notExist valueFiles repoPath =
     resolveLoop pathJoin notExist repoPath valueFiles []"

section \<open>Discovery of kustomization directories (package sync)\<close>

text \<open>
  The repository is a list of the entries (files and directories) that exist below
  \<open>repoPath\<close>, each entry given by the names on its way from \<open>repoPath\<close>, so that
  every path of the model is relative to \<open>repoPath\<close>; \<open>repoPath\<close> itself is taken
  to be free of pattern characters.

  \<open>filepath.Glob\<close> matches a pattern name by name. A pattern name \<open>*\<close> matches every
  name. A pattern name without the characters \<open>*\<close>, \<open>?\<close>, \<open>[\<close> and the backslash
  (\<open>hasMeta\<close> of Go's package) matches the equal name only. Other pattern names
  (character classes, escapes, a \<open>*\<close> inside a name) are not modelled: \<open>Glob\<close>
  is \<open>None\<close> for them. They can only come from the names of the repository, which
  \<open>isClusterDirectory\<close> puts into its pattern as they are.
\<close>

type_synonym path = "string list"

definition hasMeta :: "string \<Rightarrow> bool" where
  "hasMeta s = list_ex (\<lambda>c. c = CHR ''*'' \<or> c = CHR ''?'' \<or> c = CHR ''['' \<or> c = CHR 0x5C) s"

definition matchName :: "string \<Rightarrow> string \<Rightarrow> bool" where
  "matchName pat name = (pat = ''*'' \<or> pat = name)"

definition Glob :: "path list \<Rightarrow> string list \<Rightarrow> path list option" where
  "Glob tree pattern =
     (if list_ex (\<lambda>pat. pat \<noteq> ''*'' \<and> hasMeta pat) pattern then None
      else Some (filter (\<lambda>entry. list_all2 matchName pattern entry) tree))"

text \<open>
  \<open>filepath.Base\<close>: the last name of a path, behind trailing separators; \<open>.\<close> for the
  empty path and the separator for a path of separators only.
\<close>

definition Base :: "string \<Rightarrow> string" where
  "Base p =
     (if p = [] then ''.''
      else let p1 = rev (dropWhile (\<lambda>c. c = CHR ''/'') (rev p));
               p2 = rev (takeWhile (\<lambda>c. c \<noteq> CHR ''/'') (rev p1))
           in if p2 = [] then ''/'' else p2)"

definition extractClusterFromAppPath :: "string \<Rightarrow> string \<times> bool" where
  "extractClusterFromAppPath relDir =
     (let parts = Split relDir ''/'' in
      if length parts < 4 \<or> parts ! 0 \<noteq> ''apps'' then ([], False)
      else if length parts \<ge> 5 \<and> (parts ! 2 = ''overlays'' \<or> parts ! 2 = ''stack'')
        then (parts ! 3, True)
      else if length parts \<ge> 6 \<and> parts ! 2 = ''db'' \<and> parts ! 3 = ''overlays''
        then (parts ! 4, True)
      else ([], False))"

fun containsString :: "string list \<Rightarrow> string \<Rightarrow> bool" where
  "containsString [] val = False"
| "containsString (s # slice) val = (if s = val then True else containsString slice val)"

text \<open>
  \<open>isClusterDirectory\<close>: the pattern is the directory, \<open>*\<close> and the build
  descriptor; an error of \<open>Glob\<close> would give \<open>false\<close>.
\<close>

definition isClusterDirectory :: "path list \<Rightarrow> string \<Rightarrow> bool option" where
  "isClusterDirectory tree relDir =
     (case Glob tree (Split relDir ''/'' @ [''*'', ''kustomization.yaml'']) of
        None \<Rightarrow> None
      | Some entries \<Rightarrow> Some (length entries > 0))"

text \<open>
  A match of \<open>pattern/kustomization.yaml\<close> is an entry; \<open>filepath.Dir\<close> drops its last
  name and \<open>filepath.Rel\<close> gives the names joined by the separator. The map
  \<open>dirSet\<close> only ever stores \<open>true\<close>: it is the list of its keys.
\<close>

definition relDirOf :: "path \<Rightarrow> string" where
  "relDirOf match = Join (butlast match) ''/''"

definition globPattern :: "path list \<Rightarrow> string \<Rightarrow> path list option" where
  "globPattern tree pattern = Glob tree (Split pattern ''/'' @ [''kustomization.yaml''])"

fun newAppMatches :: "string list \<Rightarrow> path list \<Rightarrow> string list \<Rightarrow> string list" where
  "newAppMatches clusters [] dirSet = dirSet"
| "newAppMatches clusters (match # matches) dirSet =
     (let relDir = relDirOf match in
      if length clusters > 0
         \<and> (case extractClusterFromAppPath relDir of
               (clusterName, ok) \<Rightarrow> ok \<and> \<not> containsString clusters clusterName)
      then newAppMatches clusters matches dirSet
      else newAppMatches clusters matches (List.insert relDir dirSet))"

fun legacyAppMatches :: "path list \<Rightarrow> path list \<Rightarrow> string list \<Rightarrow> string list option" where
  "legacyAppMatches tree [] dirSet = Some dirSet"
| "legacyAppMatches tree (match # matches) dirSet =
     (let relDir = relDirOf match in
      if relDir \<in> set dirSet then legacyAppMatches tree matches dirSet
      else case isClusterDirectory tree relDir of
             None \<Rightarrow> None
           | Some True \<Rightarrow> legacyAppMatches tree matches dirSet
           | Some False \<Rightarrow> legacyAppMatches tree matches (List.insert relDir dirSet))"

fun infraMatches :: "string list \<Rightarrow> path list \<Rightarrow> string list \<Rightarrow> string list" where
  "infraMatches clusters [] dirSet = dirSet"
| "infraMatches clusters (match # matches) dirSet =
     (let relDir = relDirOf match in
      if length clusters > 0 \<and> \<not> containsString clusters (Base relDir)
      then infraMatches clusters matches dirSet
      else infraMatches clusters matches (List.insert relDir dirSet))"

definition newAppPatterns :: "string list" where
  "newAppPatterns = [''apps/*/overlays/*/*'', ''apps/*/stack/*/*'', ''apps/*/db/overlays/*/*'']"

definition legacyAppPatterns :: "string list" where
  "legacyAppPatterns = [''apps/*/overlays/*'', ''apps/*/stack/*'', ''apps/*/db/overlays/*'']"

definition infraPatterns :: "string list" where
  "infraPatterns =
     [''infrastructure/*/overlays/*'', ''operators/*/overlays/*'', ''security/*/overlays/*'']"

fun newAppLoop :: "path list \<Rightarrow> string list \<Rightarrow> string list \<Rightarrow> string list \<Rightarrow> string list option" where
  "newAppLoop tree clusters [] dirSet = Some dirSet"
| "newAppLoop tree clusters (pattern # patterns) dirSet =
     (case globPattern tree pattern of
        None \<Rightarrow> None
      | Some matches \<Rightarrow> newAppLoop tree clusters patterns (newAppMatches clusters matches dirSet))"

fun legacyAppLoop :: "path list \<Rightarrow> string list \<Rightarrow> string list \<Rightarrow> string list option" where
  "legacyAppLoop tree [] dirSet = Some dirSet"
| "legacyAppLoop tree (pattern # patterns) dirSet =
     (case globPattern tree pattern of
        None \<Rightarrow> None
      | Some matches \<Rightarrow>
          (case legacyAppMatches tree matches dirSet of
             None \<Rightarrow> None
           | Some dirSet' \<Rightarrow> legacyAppLoop tree patterns dirSet'))"

fun infraLoop :: "path list \<Rightarrow> string list \<Rightarrow> string list \<Rightarrow> string list \<Rightarrow> string list option" where
  "infraLoop tree clusters [] dirSet = Some dirSet"
| "infraLoop tree clusters (pattern # patterns) dirSet =
     (case globPattern tree pattern of
        None \<Rightarrow> None
      | Some matches \<Rightarrow> infraLoop tree clusters patterns (infraMatches clusters matches dirSet))"

text \<open>
  \<open>DiscoverKustomizationsForSync\<close>: the three loops, then the keys of \<open>dirSet\<close>
  sorted as \<open>sort.Strings\<close> sorts them, by bytes. The result is \<open>None\<close> only where
  \<open>Glob\<close> is not modelled; the source itself never returns an error.
\<close>

definition DiscoverKustomizationsForSync :: "path list \<Rightarrow> string list \<Rightarrow> string list option" where
  "DiscoverKustomizationsForSync tree clusters =
     (case newAppLoop tree clusters newAppPatterns [] of
        None \<Rightarrow> None
      | Some dirSet1 \<Rightarrow>
          (case legacyAppLoop tree legacyAppPatterns dirSet1 of
             None \<Rightarrow> None
           | Some dirSet2 \<Rightarrow>
               (case infraLoop tree clusters infraPatterns dirSet2 of
                  None \<Rightarrow> None
                | Some dirSet3 \<Rightarrow> Some (sort dirSet3))))"

text \<open>
  Names as a file system has them, and free of the characters that \<open>Glob\<close> reads as
  part of a pattern.
\<close>

definition validName :: "string \<Rightarrow> bool" where
  "validName n = (n \<noteq> [] \<and> CHR ''/'' \<notin> set n \<and> \<not> hasMeta n)"

definition validTree :: "path list \<Rightarrow> bool" where
  "validTree tree = list_all (list_all validName) tree"

definition matchesPattern :: "string \<Rightarrow> path \<Rightarrow> bool" where
  "matchesPattern pattern entry =
     list_all2 matchName (Split pattern ''/'' @ [''kustomization.yaml'']) entry"

section \<open>Concrete inputs\<close>

definition exHelm :: Source where
  "exHelm = \<lparr>RepoURL = ''https://bjw-s-labs.github.io/helm-charts'', TargetRevision = ''3.7.3'',
     Path = ''charts/x'', Chart = ''app-template'',
     Helm = Some \<lparr>ReleaseName = ''krr'', ValueFiles = [''$values/apps/krr/base/values.yaml''],
       Values = []\<rparr>,
     Ref = []\<rparr>"

definition exKustomize :: Source where
  "exKustomize = \<lparr>RepoURL = ''git@github.com:erauner/homelab-k8s.git'', TargetRevision = ''master'',
     Path = ''apps/krr/overlays/production'', Chart = [], Helm = None, Ref = []\<rparr>"

definition exRef :: Source where
  "exRef = \<lparr>RepoURL = ''git@github.com:erauner/homelab-k8s.git'', TargetRevision = ''master'',
     Path = [], Chart = [], Helm = None, Ref = ''values''\<rparr>"

definition exApp :: Application where
  "exApp = \<lparr>Name = ''krr'', Namespace = ''krr'', Sources = [exRef, exKustomize, exHelm],
     Source = Some exHelm\<rparr>"

definition exSecretLines :: "string list" where
  "exSecretLines =
     [''apiVersion: v1'', ''kind: Secret'', ''stringData:'', ''  api-key: k1'', ''data:'',
      ''  password: cGFzcw=='', [], ''type: Opaque'']"

definition exSecretDoc :: string where
  "exSecretDoc = Join exSecretLines [NL]"

definition exInlineDoc :: string where
  "exInlineDoc = Join [''kind: Secret'', ''data: {}'', ''type: Opaque''] [NL]"

definition exKindDoc :: string where
  "exKindDoc = Join [''apiVersion: v1'', ''kind:   Secret  '', ''type: Opaque''] [NL]"

definition exStream :: string where
  "exStream =
     Join [''kind: ConfigMap'', ''data:'', ''  key: value'', ''---'', ''kind: Secret'', ''data:'',
           ''  password: c2VjcmV0'', ''---'', ''kind: Deployment''] [NL]"

definition exBlank :: string where
  "exBlank = Join [''a: 1'', [], ''---'', ''b: 2''] [NL]"

definition exBlank2 :: string where
  "exBlank2 = Join [''a: 1'', [], [], ''---'', ''b: 2''] [NL]"

definition exConfig :: string where
  "exConfig = Join [''kind: ConfigMap'', ''data:'', ''  key: value'', ''---'', ''kind: Deployment'', []] [NL]"

definition exJoin :: "string \<Rightarrow> string \<Rightarrow> string" where
  "exJoin dir file = dir @ ''/'' @ file"

definition exMissing :: "string \<Rightarrow> bool" where
  "exMissing p = (p = ''/repo/nonexistent/values.yaml'' \<or> p = ''/repo/late.yaml'')"

definition exTree :: "path list" where
  "exTree =
     [[''apps'', ''coder'', ''overlays'', ''erauner-home'', ''production'', ''kustomization.yaml''],
      [''apps'', ''coder'', ''overlays'', ''erauner-cloud'', ''production'', ''kustomization.yaml''],
      [''apps'', ''coder'', ''overlays'', ''erauner-home'', ''kustomization.yaml''],
      [''apps'', ''krr'', ''overlays'', ''production'', ''kustomization.yaml''],
      [''apps'', ''krr'', ''base'', ''kustomization.yaml''],
      [''infrastructure'', ''dns'', ''overlays'', ''erauner-home'', ''kustomization.yaml''],
      [''infrastructure'', ''dns'', ''overlays'', ''erauner-cloud'', ''kustomization.yaml'']]"

section \<open>Properties of the string functions\<close>

lemma Index_char_None: "c \<notin> set s \<Longrightarrow> Index s [c] = None"
  by (induction s) auto

lemma Index_char_Some: "c \<notin> set a \<Longrightarrow> Index (a @ c # b) [c] = Some (length a)"
  by (induction a) auto

lemma Split_char_none: "c \<notin> set s \<Longrightarrow> Split s [c] = [s]"
  by (simp add: Split.simps Index_char_None)

lemma Split_char_first: "c \<notin> set a \<Longrightarrow> Split (a @ c # b) [c] = a # Split b [c]"
  by (subst Split.simps) (simp add: Index_char_Some)

lemma Split_char_append: "Split (a @ c # b) [c] = Split a [c] @ Split b [c]"
proof (induction a rule: length_induct)
  case (1 a)
  show ?case
  proof (cases "c \<in> set a")
    case False
    then show ?thesis by (simp add: Split_char_first Split_char_none)
  next
    case True
    then obtain a1 a2 where a: "a = a1 @ c # a2" and n: "c \<notin> set a1"
      by (meson split_list_first)
    have "length a2 < length a" using a by simp
    with 1 have ih: "Split (a2 @ c # b) [c] = Split a2 [c] @ Split b [c]" by blast
    have "Split (a @ c # b) [c] = a1 # Split (a2 @ c # b) [c]"
      using Split_char_first [OF n, of "a2 @ c # b"] by (simp add: a)
    also have "\<dots> = (a1 # Split a2 [c]) @ Split b [c]" by (simp add: ih)
    also have "a1 # Split a2 [c] = Split a [c]"
      using Split_char_first [OF n, of a2] by (simp add: a)
    finally show ?thesis .
  qed
qed

lemma takeWhile_absent: "c \<notin> set s \<Longrightarrow> takeWhile (\<lambda>x. x \<noteq> c) s = s"
  by (induction s) auto

lemma Split_char_hd: "\<exists>ls. Split s [c] = takeWhile (\<lambda>x. x \<noteq> c) s # ls"
proof (cases "c \<in> set s")
  case False
  then show ?thesis by (simp add: Split_char_none takeWhile_absent)
next
  case True
  then obtain a b where s: "s = a @ c # b" and n: "c \<notin> set a"
    by (meson split_list_first)
  have "takeWhile (\<lambda>x. x \<noteq> c) s = a"
    unfolding s using n by (induction a) auto
  then show ?thesis using Split_char_first [OF n, of b] s by simp
qed

lemma line_start_in_Split:
  assumes "doc = pre @ rest" and "pre = [] \<or> last pre = c"
  shows "takeWhile (\<lambda>x. x \<noteq> c) rest \<in> set (Split doc [c])"
proof (cases pre rule: rev_cases)
  case Nil
  with assms(1) Split_char_hd [of rest c] show ?thesis by auto
next
  case (snoc p x)
  with assms have "doc = p @ c # rest" by simp
  then have "Split doc [c] = Split p [c] @ Split rest [c]"
    by (simp add: Split_char_append)
  with Split_char_hd [of rest c] show ?thesis by auto
qed

lemma Index_Some_decomp:
  "Index s sep = Some k \<Longrightarrow> s = take k s @ sep @ drop (k + length sep) s"
proof (induction s arbitrary: k)
  case Nil
  then show ?case by (simp split: if_splits)
next
  case (Cons c cs)
  show ?case
  proof (cases "prefix sep (c # cs)")
    case True
    with Cons.prems have "k = 0" by simp
    with True show ?thesis by (auto simp: prefix_def)
  next
    case False
    with Cons.prems obtain k' where k: "k = Suc k'" and "Index cs sep = Some k'" by auto
    then have "cs = take k' cs @ sep @ drop (k' + length sep) cs" by (rule_tac Cons.IH)
    then show ?thesis unfolding k by simp
  qed
qed

lemma Split_nonempty: "sep \<noteq> [] \<Longrightarrow> Split s sep \<noteq> []"
  by (subst Split.simps) (simp split: option.split)

lemma Join_Cons: "Join (a # elems) sep = a @ concat (map ((@) sep) elems)"
  by (induction elems arbitrary: a) simp_all

lemma Join_Split: "sep \<noteq> [] \<Longrightarrow> Join (Split s sep) sep = s"
proof (induction s sep rule: Split.induct)
  case (1 s sep)
  show ?case
  proof (cases "Index s sep")
    case None
    with 1 show ?thesis by (subst Split.simps) simp
  next
    case (Some m)
    let ?rest = "drop (m + length sep) s"
    have ih: "Join (Split ?rest sep) sep = ?rest"
      using 1 Some by simp
    obtain x xs where xs: "Split ?rest sep = x # xs"
      using Split_nonempty [OF "1.prems", of ?rest] by (cases "Split ?rest sep") auto
    have "Join (Split s sep) sep = take m s @ sep @ Join (Split ?rest sep) sep"
      using 1 Some xs by (subst Split.simps) simp
    also have "\<dots> = s"
      using Index_Some_decomp [OF Some] by (simp add: ih)
    finally show ?thesis .
  qed
qed

lemma dropRunes_keeps_last:
  assumes "\<forall>r \<in> set rs. c \<notin> set r"
  shows "\<exists>y'. dropRunes rs (y @ [c]) = y' @ [c]"
proof (induction y rule: length_induct)
  case (1 y)
  show ?case
  proof (cases "find (\<lambda>r. prefix r (y @ [c])) rs")
    case None
    then show ?thesis by (subst dropRunes.simps) simp
  next
    case (Some r)
    then have r: "r \<in> set rs" and p: "prefix r (y @ [c])"
      by (auto simp: find_Some_iff intro: nth_mem)
    show ?thesis
    proof (cases "r = []")
      case True
      with Some show ?thesis by (subst dropRunes.simps) simp
    next
      case False
      from r assms have "c \<notin> set r" by blast
      with p have "prefix r y"
        by (metis in_set_conv_decomp prefix_snoc)
      then obtain z where y: "y = r @ z" by (auto simp: prefix_def)
      then have "length z < length y" using False by simp
      with 1 obtain y' where "dropRunes rs (z @ [c]) = y' @ [c]" by blast
      then show ?thesis
        using Some False y by (subst dropRunes.simps) simp
    qed
  qed
qed

lemma TrimSpace_dash: "\<exists>t'. TrimSpace (CHR ''-'' # t) = CHR ''-'' # t'"
proof -
  have "find (\<lambda>r. prefix r (CHR ''-'' # t)) spaceRunes = None"
    by (simp add: spaceRunes_def)
  then have l: "TrimLeftSpace (CHR ''-'' # t) = CHR ''-'' # t"
    unfolding TrimLeftSpace_def by (subst dropRunes.simps) simp
  have "\<forall>r \<in> set (map rev spaceRunes). CHR ''-'' \<notin> set r"
    by (simp add: spaceRunes_def)
  from dropRunes_keeps_last [OF this, of "rev t"]
  obtain y' where "dropRunes (map rev spaceRunes) (rev t @ [CHR ''-'']) = y' @ [CHR ''-'']"
    by blast
  then have "TrimRightSpace (CHR ''-'' # t) = CHR ''-'' # rev y'"
    by (simp add: TrimRightSpace_def)
  with l show ?thesis by (simp add: TrimSpace_def)
qed

lemma Split_Join_names:
  assumes "names \<noteq> []" and "\<forall>n \<in> set names. c \<notin> set n"
  shows "Split (Join names [c]) [c] = names"
  using assms
proof (induction names)
  case Nil
  then show ?case by simp
next
  case (Cons a names)
  show ?case
  proof (cases names)
    case Nil
    with Cons.prems show ?thesis by (simp add: Split_char_none)
  next
    case (Cons b elems)
    with Cons.IH Cons.prems have "Split (Join (b # elems) [c]) [c] = b # elems" by simp
    moreover have "c \<notin> set a" using Cons.prems by simp
    ultimately show ?thesis
      using Split_char_first [of c a "Join (b # elems) [c]"] Cons by simp
  qed
qed

section \<open>Properties of OCI detection\<close>

lemma anyPrefix_iff: "anyPrefix ps url \<longleftrightarrow> (\<exists>p \<in> set ps. prefix p url)"
  by (induction ps) (auto simp: HasPrefix_def)

text \<open>
  Claim C8. \<open>IsOCIRegistry\<close> is true for every URL that starts with \<open>oci://\<close> and
  for every URL that starts with an entry of the allow-list \<open>ociRegistryPrefixes\<close>
  (and for no other URL); \<open>oci://docker.io/x\<close> and \<open>docker.io/x\<close> are OCI,
  \<open>https://charts.example.com\<close> is not. \<open>NormalizeOCIURL\<close> puts \<open>oci://\<close> in
  front exactly when the URL does not start with it, leaves the rest of the URL as it
  is, and is idempotent.
\<close>

theorem oci_detection_and_normalization:
  "(IsOCIRegistry url \<longleftrightarrow>
      prefix ''oci://'' url \<or> (\<exists>p \<in> set ociRegistryPrefixes. prefix p url))
   \<and> IsOCIRegistry ''oci://docker.io/x''
   \<and> IsOCIRegistry ''docker.io/x''
   \<and> \<not> IsOCIRegistry ''https://charts.example.com''
   \<and> NormalizeOCIURL url = (if prefix ''oci://'' url then url else ''oci://'' @ url)
   \<and> NormalizeOCIURL ''docker.io/x'' = ''oci://docker.io/x''
   \<and> NormalizeOCIURL ''oci://docker.io/x'' = ''oci://docker.io/x''
   \<and> prefix ''oci://'' (NormalizeOCIURL url)
   \<and> NormalizeOCIURL (NormalizeOCIURL url) = NormalizeOCIURL url"
proof -
  have iff: "IsOCIRegistry url \<longleftrightarrow>
      prefix ''oci://'' url \<or> (\<exists>p \<in> set ociRegistryPrefixes. prefix p url)"
    by (simp add: IsOCIRegistry_def HasPrefix_def anyPrefix_iff)
  have ex1: "IsOCIRegistry ''oci://docker.io/x''"
    by (simp add: IsOCIRegistry_def HasPrefix_def)
  have ex2: "IsOCIRegistry ''docker.io/x''"
    by (simp add: IsOCIRegistry_def HasPrefix_def ociRegistryPrefixes_def)
  have ex3: "\<not> IsOCIRegistry ''https://charts.example.com''"
    by (simp add: IsOCIRegistry_def HasPrefix_def ociRegistryPrefixes_def)
  have norm: "NormalizeOCIURL url = (if prefix ''oci://'' url then url else ''oci://'' @ url)"
    by (simp add: NormalizeOCIURL_def HasPrefix_def)
  have ex4: "NormalizeOCIURL ''docker.io/x'' = ''oci://docker.io/x''"
    by (simp add: NormalizeOCIURL_def HasPrefix_def)
  have ex5: "NormalizeOCIURL ''oci://docker.io/x'' = ''oci://docker.io/x''"
    by (simp add: NormalizeOCIURL_def HasPrefix_def)
  have pre: "prefix ''oci://'' (NormalizeOCIURL url)"
    by (simp add: norm)
  have idem: "NormalizeOCIURL (NormalizeOCIURL url) = NormalizeOCIURL url"
    using pre by (simp add: NormalizeOCIURL_def HasPrefix_def)
  show ?thesis
    using iff ex1 ex2 ex3 norm ex4 ex5 pre idem by blast
qed

theorem oci_detection_and_normalization_witness:
  "IsOCIRegistry ''ghcr.io/org/chart''
   \<and> NormalizeOCIURL ''ghcr.io/org/chart'' = ''oci://ghcr.io/org/chart''
   \<and> NormalizeOCIURL (NormalizeOCIURL ''ghcr.io/org/chart'') = ''oci://ghcr.io/org/chart''"
  using oci_detection_and_normalization [of "''ghcr.io/org/chart''"]
  by (simp add: ociRegistryPrefixes_def NormalizeOCIURL_def HasPrefix_def)

section \<open>Properties of the source selectors\<close>

lemma appendIf_filter: "appendIf t acc ss = acc @ filter t ss"
  by (induction ss arbitrary: acc) simp_all

lemma GetHelmSources_eq:
  "GetHelmSources a = filter IsHelmSource (Sources a @ (case Source a of None \<Rightarrow> [] | Some s \<Rightarrow> [s]))"
  by (simp add: GetHelmSources_def appendIf_filter split: option.split)

lemma GetKustomizeSources_eq:
  "GetKustomizeSources a =
     filter IsKustomizeSource (Sources a @ (case Source a of None \<Rightarrow> [] | Some s \<Rightarrow> [s]))"
  by (simp add: GetKustomizeSources_def appendIf_filter split: option.split)

text \<open>
  Claim C10. For every Application the results of \<open>GetHelmSources\<close> and
  \<open>GetKustomizeSources\<close> have no source in common. Of the sources of the Application
  (the \<open>sources\<close> list followed by the single \<open>source\<close>, when set), the first returns
  those with a non-empty \<open>chart\<close>, whatever their \<open>path\<close>, and the second those with
  an empty \<open>chart\<close> and a non-empty \<open>path\<close>, both in that order; a source with neither
  \<open>chart\<close> nor \<open>path\<close> (a ref-only source) is returned by neither.
\<close>

theorem helm_kustomize_sources_disjoint:
  "set (GetHelmSources a) \<inter> set (GetKustomizeSources a) = {}
   \<and> GetHelmSources a =
       filter (\<lambda>s. Chart s \<noteq> []) (Sources a)
       @ filter (\<lambda>s. Chart s \<noteq> []) (case Source a of None \<Rightarrow> [] | Some s \<Rightarrow> [s])
   \<and> GetKustomizeSources a =
       filter (\<lambda>s. Chart s = [] \<and> Path s \<noteq> []) (Sources a)
       @ filter (\<lambda>s. Chart s = [] \<and> Path s \<noteq> []) (case Source a of None \<Rightarrow> [] | Some s \<Rightarrow> [s])
   \<and> (\<forall>s. Chart s \<noteq> [] \<longrightarrow> s \<notin> set (GetKustomizeSources a))
   \<and> (\<forall>s. Chart s = [] \<longrightarrow> s \<notin> set (GetHelmSources a))
   \<and> (\<forall>s. Chart s = [] \<and> Path s = [] \<longrightarrow>
          s \<notin> set (GetHelmSources a) \<and> s \<notin> set (GetKustomizeSources a))"
proof -
  have disj: "set (GetHelmSources a) \<inter> set (GetKustomizeSources a) = {}"
    by (auto simp: GetHelmSources_eq GetKustomizeSources_eq IsHelmSource_def
        IsKustomizeSource_def)
  have h: "GetHelmSources a =
       filter (\<lambda>s. Chart s \<noteq> []) (Sources a)
       @ filter (\<lambda>s. Chart s \<noteq> []) (case Source a of None \<Rightarrow> [] | Some s \<Rightarrow> [s])"
    by (simp add: GetHelmSources_eq IsHelmSource_def [abs_def])
  have k: "GetKustomizeSources a =
       filter (\<lambda>s. Chart s = [] \<and> Path s \<noteq> []) (Sources a)
       @ filter (\<lambda>s. Chart s = [] \<and> Path s \<noteq> []) (case Source a of None \<Rightarrow> [] | Some s \<Rightarrow> [s])"
    by (simp add: GetKustomizeSources_eq IsKustomizeSource_def [abs_def] conj_commute)
  have nk: "\<forall>s. Chart s \<noteq> [] \<longrightarrow> s \<notin> set (GetKustomizeSources a)"
    by (auto simp: GetKustomizeSources_eq IsKustomizeSource_def)
  have nh: "\<forall>s. Chart s = [] \<longrightarrow> s \<notin> set (GetHelmSources a)"
    by (auto simp: GetHelmSources_eq IsHelmSource_def)
  have nr: "\<forall>s. Chart s = [] \<and> Path s = [] \<longrightarrow>
          s \<notin> set (GetHelmSources a) \<and> s \<notin> set (GetKustomizeSources a)"
    by (auto simp: GetHelmSources_eq GetKustomizeSources_eq IsHelmSource_def
        IsKustomizeSource_def)
  show ?thesis
    using disj h k nk nh nr by blast
qed

theorem helm_kustomize_sources_disjoint_witness:
  "GetHelmSources exApp = [exHelm, exHelm]
   \<and> GetKustomizeSources exApp = [exKustomize]
   \<and> exHelm \<notin> set (GetKustomizeSources exApp)
   \<and> exKustomize \<notin> set (GetHelmSources exApp)
   \<and> exRef \<notin> set (GetHelmSources exApp) \<and> exRef \<notin> set (GetKustomizeSources exApp)"
  using helm_kustomize_sources_disjoint [of exApp]
  by (simp add: exApp_def exHelm_def exKustomize_def exRef_def)

section \<open>Properties of the redaction loop\<close>

lemma countIndentLoop_ge: "count \<le> countIndentLoop count line"
proof (induction line arbitrary: count)
  case Nil
  show ?case by simp
next
  case (Cons ch line)
  have "count + 1 \<le> countIndentLoop (count + 1) line"
    and "count + 2 \<le> countIndentLoop (count + 2) line"
    by (rule Cons.IH)+
  then show ?case by auto
qed

lemma countIndent_nonneg: "0 \<le> countIndent line"
  by (simp add: countIndent_def countIndentLoop_ge)

lemma matchPatterns_miss:
  "\<not> list_ex (\<lambda>pattern. trimmed = pattern \<or> HasPrefix trimmed (pattern @ '' '')) ps
   \<Longrightarrow> matchPatterns ps line trimmed st = st"
  by (induction ps) auto

lemma matchPatterns_hit:
  "list_ex (\<lambda>pattern. trimmed = pattern \<or> HasPrefix trimmed (pattern @ '' '')) ps
   \<Longrightarrow> \<exists>pattern \<in> set ps. matchPatterns ps line trimmed st =
         \<lparr>skipUntilIndent = (if inlineEmpty trimmed then - 1 else countIndent line),
          redactedField = pattern,
          result = result st @ [line, placeholderLine line]\<rparr>"
  by (induction ps) (auto simp: Let_def inlineEmpty_def placeholderLine_def)

lemma dataPatterns_nonempty: "pattern \<in> set dataPatterns \<Longrightarrow> pattern \<noteq> []"
  by (auto simp: dataPatterns_def)

lemma redactStep_skipped: "skipped st line \<Longrightarrow> redactStep i line st = st"
  by (simp add: redactStep_def skipped_def)

lemma redactStep_plain:
  assumes "\<not> skipped st line" "\<not> matchesDataPattern (TrimSpace line)"
  shows "result (redactStep i line st) = result st @ [line]"
    and "skipUntilIndent (redactStep i line st) < 0"
  using assms
  by (auto simp: redactStep_def skipped_def matchesDataPattern_def matchPatterns_miss Let_def)

lemma redactStep_block:
  assumes "\<not> skipped st line" "matchesDataPattern (TrimSpace line)"
    "\<not> inlineEmpty (TrimSpace line)"
  shows "result (redactStep i line st) = result st @ [line, placeholderLine line]"
    and "skipUntilIndent (redactStep i line st) = countIndent line"
proof -
  let ?st0 = "if skipUntilIndent st \<ge> 0 then st\<lparr>skipUntilIndent := - 1\<rparr> else st"
  from assms(2) obtain pattern where p: "pattern \<in> set dataPatterns"
    and m: "matchPatterns dataPatterns line (TrimSpace line) ?st0 =
         \<lparr>skipUntilIndent = (if inlineEmpty (TrimSpace line) then - 1 else countIndent line),
          redactedField = pattern,
          result = result ?st0 @ [line, placeholderLine line]\<rparr>"
    unfolding matchesDataPattern_def using matchPatterns_hit by blast
  have ne: "pattern \<noteq> []" using p by (rule dataPatterns_nonempty)
  show "result (redactStep i line st) = result st @ [line, placeholderLine line]"
    using assms(1,3) ne countIndent_nonneg [of line]
    by (simp add: redactStep_def skipped_def Let_def m)
  show "skipUntilIndent (redactStep i line st) = countIndent line"
    using assms(1,3) ne countIndent_nonneg [of line]
    by (auto simp: redactStep_def skipped_def Let_def m)
qed

lemma redactStep_inline:
  assumes "\<not> skipped st line" "matchesDataPattern (TrimSpace line)"
    "inlineEmpty (TrimSpace line)"
  shows "result (redactStep i line st) = result st @ [line, placeholderLine line, line]"
    and "skipUntilIndent (redactStep i line st) < 0"
proof -
  let ?st0 = "if skipUntilIndent st \<ge> 0 then st\<lparr>skipUntilIndent := - 1\<rparr> else st"
  from assms(2) obtain pattern where p: "pattern \<in> set dataPatterns"
    and m: "matchPatterns dataPatterns line (TrimSpace line) ?st0 =
         \<lparr>skipUntilIndent = (if inlineEmpty (TrimSpace line) then - 1 else countIndent line),
          redactedField = pattern,
          result = result ?st0 @ [line, placeholderLine line]\<rparr>"
    unfolding matchesDataPattern_def using matchPatterns_hit by blast
  show "result (redactStep i line st) = result st @ [line, placeholderLine line, line]"
    using assms(1,3) by (simp add: redactStep_def skipped_def Let_def m)
  show "skipUntilIndent (redactStep i line st) < 0"
    using assms(1,3) by (simp add: redactStep_def skipped_def Let_def m)
qed

lemma redactLoop_append:
  "redactLoop i (xs @ ys) st = redactLoop (i + length xs) ys (redactLoop i xs st)"
  by (induction xs arbitrary: i st) simp_all

lemma redactLoop_skip_block:
  assumes "0 \<le> skipUntilIndent st"
    and "\<forall>l \<in> set block. l = [] \<or> countIndent l > skipUntilIndent st"
  shows "redactLoop i block st = st"
  using assms by (induction block arbitrary: i) (simp_all add: redactStep_skipped skipped_def)

lemma redactStep_reached_sim:
  assumes "\<not> skipped st l" "\<not> skipped st' l"
  shows "\<exists>sfx. result (redactStep i l st) = result st @ sfx
          \<and> result (redactStep j l st') = result st' @ sfx
          \<and> ((skipUntilIndent (redactStep i l st) < 0 \<and> skipUntilIndent (redactStep j l st') < 0)
               \<or> skipUntilIndent (redactStep i l st) = skipUntilIndent (redactStep j l st'))"
proof (cases "matchesDataPattern (TrimSpace l)")
  case False
  then show ?thesis using assms redactStep_plain by blast
next
  case True
  show ?thesis
  proof (cases "inlineEmpty (TrimSpace l)")
    case True
    with \<open>matchesDataPattern (TrimSpace l)\<close> show ?thesis
      using assms redactStep_inline by blast
  next
    case False
    with \<open>matchesDataPattern (TrimSpace l)\<close> show ?thesis
      using assms redactStep_block by simp
  qed
qed

lemma redactLoop_sim:
  assumes "(skipUntilIndent st < 0 \<and> skipUntilIndent st' < 0)
           \<or> skipUntilIndent st = skipUntilIndent st'"
  shows "\<exists>R. result (redactLoop i ls st) = result st @ R
           \<and> result (redactLoop j ls st') = result st' @ R"
  using assms
proof (induction ls arbitrary: i j st st')
  case Nil
  show ?case by simp
next
  case (Cons l ls)
  have same: "skipped st l = skipped st' l"
    using Cons.prems by (auto simp: skipped_def)
  show ?case
  proof (cases "skipped st l")
    case True
    then have "skipped st' l" using same by simp
    with True Cons.prems have eq: "skipUntilIndent st = skipUntilIndent st'"
      by (auto simp: skipped_def)
    from Cons.IH [of st st' "i + 1" "j + 1"] Cons.prems
    show ?thesis using True \<open>skipped st' l\<close> by (simp add: redactStep_skipped)
  next
    case False
    then have "\<not> skipped st' l" using same by simp
    from redactStep_reached_sim [OF False this, of i j]
    obtain sfx where a: "result (redactStep i l st) = result st @ sfx"
      and b: "result (redactStep j l st') = result st' @ sfx"
      and c: "(skipUntilIndent (redactStep i l st) < 0 \<and> skipUntilIndent (redactStep j l st') < 0)
               \<or> skipUntilIndent (redactStep i l st) = skipUntilIndent (redactStep j l st')"
      by blast
    from Cons.IH [OF c, of "i + 1" "j + 1"]
    obtain R where "result (redactLoop (i + 1) ls (redactStep i l st)) = result (redactStep i l st) @ R"
      and "result (redactLoop (j + 1) ls (redactStep j l st')) = result (redactStep j l st') @ R"
      by blast
    then show ?thesis using a b by simp
  qed
qed

lemma skipped_initState: "\<not> skipped initState l"
  by (simp add: skipped_def initState_def)

lemma redactLoop_resume:
  assumes "post = [] \<or> \<not> skipped st (hd post)"
  shows "result (redactLoop i post st) = result st @ redactLines post"
proof (cases post)
  case Nil
  then show ?thesis by (simp add: redactLines_def initState_def)
next
  case (Cons l ls)
  with assms have r: "\<not> skipped st l" by simp
  from redactStep_reached_sim [OF r skipped_initState, of i 0]
  obtain sfx where a: "result (redactStep i l st) = result st @ sfx"
    and b: "result (redactStep 0 l initState) = result initState @ sfx"
    and c: "(skipUntilIndent (redactStep i l st) < 0 \<and> skipUntilIndent (redactStep 0 l initState) < 0)
               \<or> skipUntilIndent (redactStep i l st) = skipUntilIndent (redactStep 0 l initState)"
    by blast
  from redactLoop_sim [OF c, of "i + 1" ls "0 + 1"]
  obtain R where d: "result (redactLoop (i + 1) ls (redactStep i l st)) = result (redactStep i l st) @ R"
    and e: "result (redactLoop (0 + 1) ls (redactStep 0 l initState)) = result (redactStep 0 l initState) @ R"
    by blast
  have "redactLines post = sfx @ R"
    using Cons b e by (simp add: redactLines_def initState_def)
  then show ?thesis using Cons a d by simp
qed

lemma redactLoop_plain:
  assumes "\<forall>l \<in> set ls. \<not> matchesDataPattern (TrimSpace l)"
    and "skipUntilIndent st < 0"
  shows "result (redactLoop i ls st) = result st @ ls \<and> skipUntilIndent (redactLoop i ls st) < 0"
  using assms
proof (induction ls arbitrary: i st)
  case Nil
  then show ?case by simp
next
  case (Cons l ls)
  have r: "\<not> skipped st l" using Cons.prems(2) by (simp add: skipped_def)
  have m: "\<not> matchesDataPattern (TrimSpace l)" using Cons.prems(1) by simp
  have "result (redactStep i l st) = result st @ [l]" "skipUntilIndent (redactStep i l st) < 0"
    using redactStep_plain [OF r m] by blast+
  with Cons.IH [of "redactStep i l st" "i + 1"] Cons.prems(1) show ?case by simp
qed

lemma redactLines_plain:
  "\<forall>l \<in> set ls. \<not> matchesDataPattern (TrimSpace l) \<Longrightarrow> redactLines ls = ls"
  using redactLoop_plain [of ls initState 0] by (simp add: redactLines_def initState_def)

lemma lineReached_plain:
  "\<forall>l \<in> set ls. \<not> matchesDataPattern (TrimSpace l) \<Longrightarrow> lineReached ls key"
  using redactLoop_plain [of ls initState 0]
  by (simp add: lineReached_def skipped_def initState_def)

lemma bare_key:
  assumes "trimmed \<in> set dataPatterns"
  shows "matchesDataPattern trimmed" and "\<not> inlineEmpty trimmed"
  using assms
  by (auto simp: matchesDataPattern_def dataPatterns_def inlineEmpty_def Contains_def)

lemma redactLines_block:
  assumes reached: "lineReached pre key"
    and bare: "TrimSpace key \<in> set dataPatterns"
    and inside: "\<forall>l \<in> set block. l = [] \<or> countIndent l > countIndent key"
    and outside: "post = [] \<or> (hd post \<noteq> [] \<and> countIndent (hd post) \<le> countIndent key)"
  shows "redactLines (pre @ key # block @ post) =
           redactLines pre @ [key, placeholderLine key] @ redactLines post"
proof -
  define s0 where "s0 = redactLoop 0 pre initState"
  define s1 where "s1 = redactStep (length pre) key s0"
  have r: "\<not> skipped s0 key" using reached by (simp add: lineReached_def s0_def)
  have res1: "result s1 = result s0 @ [key, placeholderLine key]"
    and skip1: "skipUntilIndent s1 = countIndent key"
    using redactStep_block [OF r bare_key [OF bare]] by (simp_all add: s1_def)
  have nn: "0 \<le> skipUntilIndent s1" using skip1 countIndent_nonneg by simp
  have blk: "redactLoop i block s1 = s1" for i
    using redactLoop_skip_block [OF nn] inside skip1 by simp
  have go: "post = [] \<or> \<not> skipped s1 (hd post)"
    using outside skip1 by (auto simp: skipped_def)
  have "redactLoop 0 (pre @ key # block @ post) initState =
          redactLoop (length pre + 1 + length block) post (redactLoop (length pre + 1) block s1)"
    by (simp add: redactLoop_append s0_def s1_def)
  then have "redactLoop 0 (pre @ key # block @ post) initState =
          redactLoop (length pre + 1 + length block) post s1"
    by (simp only: blk)
  then have "redactLines (pre @ key # block @ post) = result s1 @ redactLines post"
    using redactLoop_resume [OF go] by (simp add: redactLines_def)
  then show ?thesis by (simp add: res1 s0_def redactLines_def)
qed

lemma redactLines_inline:
  assumes reached: "lineReached pre key"
    and key: "matchesDataPattern (TrimSpace key)"
    and inline: "inlineEmpty (TrimSpace key)"
  shows "redactLines (pre @ key # post) =
           redactLines pre @ [key, placeholderLine key, key] @ redactLines post"
proof -
  define s0 where "s0 = redactLoop 0 pre initState"
  define s1 where "s1 = redactStep (length pre) key s0"
  have r: "\<not> skipped s0 key" using reached by (simp add: lineReached_def s0_def)
  have res1: "result s1 = result s0 @ [key, placeholderLine key, key]"
    and skip1: "skipUntilIndent s1 < 0"
    using redactStep_inline [OF r key inline] by (simp_all add: s1_def)
  have go: "post = [] \<or> \<not> skipped s1 (hd post)"
    using skip1 by (auto simp: skipped_def)
  have "redactLoop 0 (pre @ key # post) initState = redactLoop (length pre + 1) post s1"
    by (simp add: redactLoop_append s0_def s1_def)
  then have "redactLines (pre @ key # post) = result s1 @ redactLines post"
    using redactLoop_resume [OF go] by (simp add: redactLines_def)
  then show ?thesis by (simp add: res1 s0_def redactLines_def)
qed

lemma redactDocs_map: "redactDocs docs res = res @ map redactDoc docs"
  by (induction docs arbitrary: res) simp_all

lemma RedactSecrets_single:
  "Split doc (NL # ''---'') = [doc] \<Longrightarrow> RedactSecrets doc = redactDoc doc"
  by (simp add: RedactSecrets_def splitYAMLDocuments_def redactDocs_map joinYAMLDocuments_def)

text \<open>
  Claim C1. Let a document be classified as a Secret and let its lines be \<open>pre\<close>, a
  line \<open>key\<close> that trimmed is exactly \<open>data:\<close> (or \<open>stringData:\<close>,
  \<open>binaryData:\<close>), the lines \<open>block\<close> of its block (each empty or indented deeper
  than the key) and the lines \<open>post\<close> behind the block, where the loop is not skipping
  an enclosing block when it reaches the key. Then the redacted document consists of
  what the loop emits for \<open>pre\<close> alone, the key line unchanged, exactly one placeholder
  line indented by the key's indentation plus two spaces, and what the loop emits for
  \<open>post\<close> alone: no line of the block is left. Lines before and behind the block that
  start no data block themselves are emitted byte for byte, and for a manifest of this
  single document \<open>RedactSecrets\<close> returns exactly this text.
\<close>

theorem redact_data_block:
  assumes "isSecretDocument doc"
    and "Split doc [NL] = pre @ key # block @ post"
    and "lineReached pre key"
    and "TrimSpace key \<in> set dataPatterns"
    and "\<forall>l \<in> set block. l = [] \<or> countIndent l > countIndent key"
    and "post = [] \<or> (hd post \<noteq> [] \<and> countIndent (hd post) \<le> countIndent key)"
  shows "redactDoc doc =
           Join (redactLines pre
                 @ [key, replicate (nat (countIndent key + 2)) (CHR '' '') @ placeholder]
                 @ redactLines post) [NL]
         \<and> ((\<forall>l \<in> set pre. \<not> matchesDataPattern (TrimSpace l)) \<longrightarrow> redactLines pre = pre)
         \<and> ((\<forall>l \<in> set post. \<not> matchesDataPattern (TrimSpace l)) \<longrightarrow> redactLines post = post)
         \<and> (Split doc (NL # ''---'') = [doc] \<longrightarrow> RedactSecrets doc = redactDoc doc)"
proof -
  have "redactDoc doc = Join (redactLines (pre @ key # block @ post)) [NL]"
    using assms(1,2) by (simp add: redactDoc_def redactSecretDocument_def)
  also have "redactLines (pre @ key # block @ post) =
      redactLines pre @ [key, placeholderLine key] @ redactLines post"
    using assms(3-6) by (rule redactLines_block)
  finally have main: "redactDoc doc =
           Join (redactLines pre
                 @ [key, replicate (nat (countIndent key + 2)) (CHR '' '') @ placeholder]
                 @ redactLines post) [NL]"
    by (simp add: placeholderLine_def)
  show ?thesis
    using main redactLines_plain RedactSecrets_single by blast
qed

theorem redact_data_block_witness:
  "isSecretDocument exSecretDoc
   \<and> Split exSecretDoc (NL # ''---'') = [exSecretDoc]
   \<and> RedactSecrets exSecretDoc =
       Join [''apiVersion: v1'', ''kind: Secret'', ''stringData:'',
             ''  # REDACTED - secrets are not included in shadow diffs'', ''data:'',
             ''  # REDACTED - secrets are not included in shadow diffs'', ''type: Opaque''] [NL]"
proof -
  let ?pre = "[''apiVersion: v1'', ''kind: Secret'', ''stringData:'', ''  api-key: k1'']"
  let ?key = "''data:''"
  let ?block = "[''  password: cGFzcw=='', []]"
  let ?post = "[''type: Opaque'']"
  have h1: "isSecretDocument exSecretDoc"
    by code_simp
  have h2: "Split exSecretDoc [NL] = ?pre @ ?key # ?block @ ?post"
    by code_simp
  have h3: "lineReached ?pre ?key"
    by code_simp
  have h4: "TrimSpace ?key \<in> set dataPatterns"
    by code_simp
  have h5: "\<forall>l \<in> set ?block. l = [] \<or> countIndent l > countIndent ?key"
    by code_simp
  have h6: "?post = [] \<or> (hd ?post \<noteq> [] \<and> countIndent (hd ?post) \<le> countIndent ?key)"
    by code_simp
  have h7: "Split exSecretDoc (NL # ''---'') = [exSecretDoc]"
    by code_simp
  have h8: "redactLines ?pre = [''apiVersion: v1'', ''kind: Secret'', ''stringData:'',
             ''  # REDACTED - secrets are not included in shadow diffs'']"
    by code_simp
  have h9: "\<forall>l \<in> set ?post. \<not> matchesDataPattern (TrimSpace l)"
    by code_simp
  have h10: "replicate (nat (countIndent ?key + 2)) (CHR '' '') @ placeholder =
      ''  # REDACTED - secrets are not included in shadow diffs''"
    by code_simp
  note t = redact_data_block [OF h1 h2 h3 h4 h5 h6]
  from t have a: "redactDoc exSecretDoc =
      Join (redactLines ?pre @ [?key, replicate (nat (countIndent ?key + 2)) (CHR '' '') @ placeholder]
            @ redactLines ?post) [NL]"
    by blast
  from t h9 have b: "redactLines ?post = ?post"
    by blast
  from t h7 have c: "RedactSecrets exSecretDoc = redactDoc exSecretDoc"
    by blast
  have "RedactSecrets exSecretDoc =
       Join [''apiVersion: v1'', ''kind: Secret'', ''stringData:'',
             ''  # REDACTED - secrets are not included in shadow diffs'', ''data:'',
             ''  # REDACTED - secrets are not included in shadow diffs'', ''type: Opaque''] [NL]"
    unfolding c a b h8 h10 by simp
  with h1 h7 show ?thesis by blast
qed

text \<open>
  Claim C4 as stated fails: for the inline form \<open>data: {}\<close> the loop emits the key
  line and then the placeholder line before it looks at the value, so a placeholder line
  is added and the output differs from the input.
\<close>

theorem redact_inline_empty_counterexample:
  "isSecretDocument exInlineDoc
   \<and> RedactSecrets exInlineDoc =
       Join [''kind: Secret'', ''data: {}'',
             ''  # REDACTED - secrets are not included in shadow diffs'', ''data: {}'',
             ''type: Opaque''] [NL]
   \<and> RedactSecrets exInlineDoc \<noteq> exInlineDoc"
proof -
  have a: "isSecretDocument exInlineDoc"
    by code_simp
  have b: "RedactSecrets exInlineDoc =
       Join [''kind: Secret'', ''data: {}'',
             ''  # REDACTED - secrets are not included in shadow diffs'', ''data: {}'',
             ''type: Opaque''] [NL]"
    by code_simp
  have c: "RedactSecrets exInlineDoc \<noteq> exInlineDoc"
    unfolding b by (simp add: exInlineDoc_def)
  show ?thesis
    by (intro conjI a b c)
qed

text \<open>
  Claim C4, amended. When the loop reaches a line that starts a data block
  (\<open>data:\<close>, \<open>stringData:\<close> or \<open>binaryData:\<close>, alone or followed by a space) whose
  trimmed text contains \<open>{}\<close> or \<open>{ }\<close>, the redacted document has the key line as it
  is, directly followed by one placeholder line at the key's indentation plus two, and
  nothing is suppressed: the lines behind the key are emitted as the loop emits them on
  their own, byte for byte where they start no data block themselves.
\<close>

theorem redact_inline_empty:
  assumes "isSecretDocument doc"
    and "Split doc [NL] = pre @ key # post"
    and "lineReached pre key"
    and "matchesDataPattern (TrimSpace key)"
    and "inlineEmpty (TrimSpace key)"
  shows "(\<exists>mid. redactDoc doc =
            Join (redactLines pre
                  @ [key, replicate (nat (countIndent key + 2)) (CHR '' '') @ placeholder]
                  @ mid @ redactLines post) [NL])
         \<and> ((\<forall>l \<in> set pre. \<not> matchesDataPattern (TrimSpace l)) \<longrightarrow> redactLines pre = pre)
         \<and> ((\<forall>l \<in> set post. \<not> matchesDataPattern (TrimSpace l)) \<longrightarrow> redactLines post = post)
         \<and> (Split doc (NL # ''---'') = [doc] \<longrightarrow> RedactSecrets doc = redactDoc doc)"
proof -
  have "redactDoc doc = Join (redactLines (pre @ key # post)) [NL]"
    using assms(1,2) by (simp add: redactDoc_def redactSecretDocument_def)
  also have "redactLines (pre @ key # post) =
      redactLines pre @ [key, placeholderLine key, key] @ redactLines post"
    using assms(3-5) by (rule redactLines_inline)
  finally have "redactDoc doc =
            Join (redactLines pre
                  @ [key, replicate (nat (countIndent key + 2)) (CHR '' '') @ placeholder]
                  @ [key] @ redactLines post) [NL]"
    by (simp add: placeholderLine_def)
  then have main: "\<exists>mid. redactDoc doc =
            Join (redactLines pre
                  @ [key, replicate (nat (countIndent key + 2)) (CHR '' '') @ placeholder]
                  @ mid @ redactLines post) [NL]"
    by (rule exI)
  show ?thesis
    by (intro conjI impI main redactLines_plain RedactSecrets_single)
qed

theorem redact_inline_empty_witness:
  "isSecretDocument exInlineDoc
   \<and> matchesDataPattern (TrimSpace ''data: {}'') \<and> inlineEmpty (TrimSpace ''data: {}'')
   \<and> (\<exists>mid. RedactSecrets exInlineDoc =
         Join ([''kind: Secret'', ''data: {}'',
                ''  # REDACTED - secrets are not included in shadow diffs'']
               @ mid @ [''type: Opaque'']) [NL])"
proof -
  let ?pre = "[''kind: Secret'']"
  let ?key = "''data: {}''"
  let ?post = "[''type: Opaque'']"
  have h1: "isSecretDocument exInlineDoc"
    by code_simp
  have h2: "Split exInlineDoc [NL] = ?pre @ ?key # ?post"
    by code_simp
  have h3: "lineReached ?pre ?key"
    by code_simp
  have h4: "matchesDataPattern (TrimSpace ?key)"
    by code_simp
  have h5: "inlineEmpty (TrimSpace ?key)"
    by code_simp
  have h6: "\<forall>l \<in> set ?pre. \<not> matchesDataPattern (TrimSpace l)"
    by code_simp
  have h7: "\<forall>l \<in> set ?post. \<not> matchesDataPattern (TrimSpace l)"
    by code_simp
  have h8: "Split exInlineDoc (NL # ''---'') = [exInlineDoc]"
    by code_simp
  have h9: "replicate (nat (countIndent ?key + 2)) (CHR '' '') @ placeholder =
      ''  # REDACTED - secrets are not included in shadow diffs''"
    by code_simp
  note t = redact_inline_empty [OF h1 h2 h3 h4 h5]
  from t [THEN conjunct1] obtain mid where a: "redactDoc exInlineDoc =
      Join (redactLines ?pre @ [?key, replicate (nat (countIndent ?key + 2)) (CHR '' '') @ placeholder]
            @ mid @ redactLines ?post) [NL]" ..
  have b: "redactLines ?pre = ?pre"
    using t [THEN conjunct2, THEN conjunct1] h6 by (rule mp)
  have c: "redactLines ?post = ?post"
    using t [THEN conjunct2, THEN conjunct2, THEN conjunct1] h7 by (rule mp)
  have d: "RedactSecrets exInlineDoc = redactDoc exInlineDoc"
    using t [THEN conjunct2, THEN conjunct2, THEN conjunct2] h8 by (rule mp)
  have "RedactSecrets exInlineDoc =
         Join ([''kind: Secret'', ''data: {}'',
                ''  # REDACTED - secrets are not included in shadow diffs'']
               @ mid @ [''type: Opaque'']) [NL]"
    unfolding d a b c h9 by simp
  then have "\<exists>mid. RedactSecrets exInlineDoc =
         Join ([''kind: Secret'', ''data: {}'',
                ''  # REDACTED - secrets are not included in shadow diffs'']
               @ mid @ [''type: Opaque'']) [NL]"
    by (rule exI [of "\<lambda>m. RedactSecrets exInlineDoc =
         Join ([''kind: Secret'', ''data: {}'',
                ''  # REDACTED - secrets are not included in shadow diffs'']
               @ m @ [''type: Opaque'']) [NL]" mid])
  with h1 h4 h5 show ?thesis by (intro conjI)
qed

section \<open>Properties of the Secret test\<close>

lemma reTail_iff:
  "reTail r \<longleftrightarrow>
     (\<exists>ws post. r = ws @ post \<and> list_all reSpace ws \<and> (post = [] \<or> hd post = NL))"
proof
  show "reTail r \<Longrightarrow>
     \<exists>ws post. r = ws @ post \<and> list_all reSpace ws \<and> (post = [] \<or> hd post = NL)"
  proof (induction r)
    case Nil
    show ?case by simp
  next
    case (Cons c cs)
    show ?case
    proof (cases "c = NL")
      case True
      then have "c # cs = [] @ (c # cs) \<and> list_all reSpace [] \<and> hd (c # cs) = NL"
        by simp
      then show ?thesis by blast
    next
      case False
      with Cons.prems have sp: "reSpace c" and "reTail cs" by simp_all
      with Cons.IH obtain ws post where "cs = ws @ post" "list_all reSpace ws"
        "post = [] \<or> hd post = NL" by blast
      with sp have "c # cs = (c # ws) @ post \<and> list_all reSpace (c # ws)
          \<and> (post = [] \<or> hd post = NL)"
        by simp
      then show ?thesis by blast
    qed
  qed
next
  assume "\<exists>ws post. r = ws @ post \<and> list_all reSpace ws \<and> (post = [] \<or> hd post = NL)"
  then obtain ws post where r: "r = ws @ post" and ws: "list_all reSpace ws"
    and post: "post = [] \<or> hd post = NL" by blast
  have "reTail (ws @ post)"
    using ws
  proof (induction ws)
    case Nil
    show ?case using post by (cases post) auto
  next
    case (Cons w ws)
    then show ?case by simp
  qed
  then show "reTail r" by (simp add: r)
qed

lemma reSecret_iff:
  "reSecret r \<longleftrightarrow>
     (\<exists>ws rest. r = ws @ ''Secret'' @ rest \<and> list_all reSpace ws \<and> reTail rest)"
proof
  show "reSecret r \<Longrightarrow>
     \<exists>ws rest. r = ws @ ''Secret'' @ rest \<and> list_all reSpace ws \<and> reTail rest"
  proof (induction r)
    case Nil
    then show ?case by simp
  next
    case (Cons c cs)
    show ?case
    proof (cases "prefix ''Secret'' (c # cs) \<and> reTail (drop 6 (c # cs))")
      case True
      then obtain rest where e: "c # cs = ''Secret'' @ rest"
        by (auto simp: prefix_def)
      with True have "reTail rest" by simp
      with e have "c # cs = [] @ ''Secret'' @ rest \<and> list_all reSpace [] \<and> reTail rest"
        by simp
      then show ?thesis by blast
    next
      case False
      with Cons.prems have sp: "reSpace c" and "reSecret cs" by auto
      with Cons.IH obtain ws rest where "cs = ws @ ''Secret'' @ rest" "list_all reSpace ws"
        "reTail rest" by blast
      with sp have "c # cs = (c # ws) @ ''Secret'' @ rest \<and> list_all reSpace (c # ws)
          \<and> reTail rest"
        by simp
      then show ?thesis by blast
    qed
  qed
next
  assume "\<exists>ws rest. r = ws @ ''Secret'' @ rest \<and> list_all reSpace ws \<and> reTail rest"
  then obtain ws rest where r: "r = ws @ ''Secret'' @ rest" and ws: "list_all reSpace ws"
    and rest: "reTail rest" by blast
  have "reSecret (ws @ ''Secret'' @ rest)"
    using ws
  proof (induction ws)
    case Nil
    show ?case using rest by simp
  next
    case (Cons w ws)
    then show ?case by simp
  qed
  then show "reSecret r" by (simp add: r)
qed

lemma reSearch_iff:
  "reSearch bol s \<longleftrightarrow>
     (\<exists>pre rest. s = pre @ rest \<and> (if pre = [] then bol else last pre = NL) \<and> reKind rest)"
proof (induction s arbitrary: bol)
  case Nil
  show ?case by simp
next
  case (Cons c cs)
  show ?case
  proof
    assume "reSearch bol (c # cs)"
    then consider "bol \<and> reKind (c # cs)" | "reSearch (c = NL) cs" by auto
    then show "\<exists>pre rest. c # cs = pre @ rest \<and> (if pre = [] then bol else last pre = NL)
        \<and> reKind rest"
    proof cases
      case 1
      then have "c # cs = [] @ (c # cs) \<and> (if [] = ([]::string) then bol else last [] = NL)
          \<and> reKind (c # cs)"
        by simp
      then show ?thesis by blast
    next
      case 2
      then obtain pre rest where "cs = pre @ rest"
        "if pre = [] then c = NL else last pre = NL" "reKind rest"
        using Cons.IH by blast
      then have "c # cs = (c # pre) @ rest
          \<and> (if c # pre = [] then bol else last (c # pre) = NL) \<and> reKind rest"
        by (auto split: if_splits)
      then show ?thesis by blast
    qed
  next
    assume "\<exists>pre rest. c # cs = pre @ rest \<and> (if pre = [] then bol else last pre = NL)
        \<and> reKind rest"
    then obtain pre rest where e: "c # cs = pre @ rest"
      and b: "if pre = [] then bol else last pre = NL" and k: "reKind rest" by blast
    show "reSearch bol (c # cs)"
    proof (cases pre)
      case Nil
      with e b k have "bol \<and> reKind (c # cs)" by simp
      then show ?thesis by simp
    next
      case (Cons p ps)
      with e have "p = c" "cs = ps @ rest" by simp_all
      moreover have "if ps = [] then c = NL else last ps = NL"
        using b Cons \<open>p = c\<close> by (auto split: if_splits)
      ultimately have "reSearch (c = NL) cs"
        using k Cons.IH by blast
      then show ?thesis by simp
    qed
  qed
qed

lemma reKind_iff:
  "reKind s \<longleftrightarrow>
     (\<exists>ws rest. s = ''kind:'' @ ws @ ''Secret'' @ rest \<and> list_all reSpace ws \<and> reTail rest)"
proof
  assume "reKind s"
  then obtain r where s: "s = ''kind:'' @ r" and "reSecret r"
    by (auto simp: reKind_def prefix_def)
  then show "\<exists>ws rest. s = ''kind:'' @ ws @ ''Secret'' @ rest \<and> list_all reSpace ws \<and> reTail rest"
    by (auto simp: reSecret_iff)
next
  assume "\<exists>ws rest. s = ''kind:'' @ ws @ ''Secret'' @ rest \<and> list_all reSpace ws \<and> reTail rest"
  then obtain ws rest where s: "s = ''kind:'' @ (ws @ ''Secret'' @ rest)"
    and "list_all reSpace ws" "reTail rest" by auto
  then have "reSecret (ws @ ''Secret'' @ rest)"
    using reSecret_iff by blast
  then show "reKind s"
    unfolding reKind_def s by simp
qed

lemma secret_decomposition:
  "isSecretDocument doc \<longleftrightarrow>
     (\<exists>pre ws1 ws2 post.
        doc = pre @ ''kind:'' @ ws1 @ ''Secret'' @ ws2 @ post
        \<and> (pre = [] \<or> last pre = NL)
        \<and> list_all reSpace ws1 \<and> list_all reSpace ws2
        \<and> (post = [] \<or> hd post = NL))"
proof
  assume "isSecretDocument doc"
  then obtain pre rest where d: "doc = pre @ rest" and p: "pre = [] \<or> last pre = NL"
    and "reKind rest"
    by (auto simp: isSecretDocument_def reSearch_iff split: if_splits)
  then obtain ws1 r where r: "rest = ''kind:'' @ ws1 @ ''Secret'' @ r"
    and w1: "list_all reSpace ws1" and "reTail r"
    using reKind_iff by blast
  then obtain ws2 post where "r = ws2 @ post" "list_all reSpace ws2" "post = [] \<or> hd post = NL"
    using reTail_iff by blast
  with d p r w1 have "doc = pre @ ''kind:'' @ ws1 @ ''Secret'' @ ws2 @ post
        \<and> (pre = [] \<or> last pre = NL)
        \<and> list_all reSpace ws1 \<and> list_all reSpace ws2
        \<and> (post = [] \<or> hd post = NL)"
    by simp
  then show "\<exists>pre ws1 ws2 post.
        doc = pre @ ''kind:'' @ ws1 @ ''Secret'' @ ws2 @ post
        \<and> (pre = [] \<or> last pre = NL)
        \<and> list_all reSpace ws1 \<and> list_all reSpace ws2
        \<and> (post = [] \<or> hd post = NL)"
    by blast
next
  assume "\<exists>pre ws1 ws2 post.
        doc = pre @ ''kind:'' @ ws1 @ ''Secret'' @ ws2 @ post
        \<and> (pre = [] \<or> last pre = NL)
        \<and> list_all reSpace ws1 \<and> list_all reSpace ws2
        \<and> (post = [] \<or> hd post = NL)"
  then obtain pre ws1 ws2 post where d: "doc = pre @ ''kind:'' @ ws1 @ ''Secret'' @ ws2 @ post"
    and p: "pre = [] \<or> last pre = NL" and w1: "list_all reSpace ws1"
    and w2: "list_all reSpace ws2" and po: "post = [] \<or> hd post = NL"
    by blast
  from w2 po have "reTail (ws2 @ post)"
    using reTail_iff by blast
  with w1 have "reKind (''kind:'' @ ws1 @ ''Secret'' @ ws2 @ post)"
    using reKind_iff by blast
  with p have "\<exists>pre' rest. doc = pre' @ rest \<and> (if pre' = [] then True else last pre' = NL)
      \<and> reKind rest"
    unfolding d by (intro exI [of _ pre] exI [of _ "''kind:'' @ ws1 @ ''Secret'' @ ws2 @ post"]) auto
  then show "isSecretDocument doc"
    by (simp add: isSecretDocument_def reSearch_iff)
qed

text \<open>
  Claim C3 as stated fails in both directions: the expression is anchored at the start
  of a line, so a \<open>kind: Secret\<close> line with leading white space does not classify
  the document, and it allows any amount of white space behind the colon, so
  \<open>kind:Secret\<close> does.
\<close>

theorem secret_classification_counterexample:
  "Split ''  kind: Secret'' [NL] = [''  kind: Secret'']
   \<and> TrimSpace ''  kind: Secret'' = ''kind: Secret''
   \<and> \<not> isSecretDocument ''  kind: Secret''
   \<and> Split ''kind:Secret'' [NL] = [''kind:Secret'']
   \<and> TrimSpace ''kind:Secret'' \<noteq> ''kind: Secret''
   \<and> isSecretDocument ''kind:Secret''"
  by code_simp

text \<open>
  Claim C3, amended. A document is classified as a Secret exactly when, at the start of
  the text or directly behind a newline, it has \<open>kind:\<close>, then any number of white
  space characters (tab, newline, form feed, carriage return, space), then \<open>Secret\<close>,
  then white space only up to the end of the text or a newline. In particular some line
  of a classified document starts with \<open>kind:\<close> in its first column: leading white
  space before \<open>kind:\<close> is not ignored.
\<close>

theorem secret_classification:
  "(isSecretDocument doc \<longleftrightarrow>
     (\<exists>pre ws1 ws2 post.
        doc = pre @ ''kind:'' @ ws1 @ ''Secret'' @ ws2 @ post
        \<and> (pre = [] \<or> last pre = NL)
        \<and> list_all reSpace ws1 \<and> list_all reSpace ws2
        \<and> (post = [] \<or> hd post = NL)))
   \<and> (isSecretDocument doc \<longrightarrow> list_ex (prefix ''kind:'') (Split doc [NL]))"
proof -
  have iff: "isSecretDocument doc \<longleftrightarrow>
     (\<exists>pre ws1 ws2 post.
        doc = pre @ ''kind:'' @ ws1 @ ''Secret'' @ ws2 @ post
        \<and> (pre = [] \<or> last pre = NL)
        \<and> list_all reSpace ws1 \<and> list_all reSpace ws2
        \<and> (post = [] \<or> hd post = NL))"
    by (rule secret_decomposition)
  have "list_ex (prefix ''kind:'') (Split doc [NL])" if "isSecretDocument doc"
  proof -
    from that iff obtain pre ws1 ws2 post
      where d: "doc = pre @ (''kind:'' @ ws1 @ ''Secret'' @ ws2 @ post)"
        and p: "pre = [] \<or> last pre = NL"
      by auto
    let ?l = "takeWhile (\<lambda>x. x \<noteq> NL) (''kind:'' @ ws1 @ ''Secret'' @ ws2 @ post)"
    have "?l \<in> set (Split doc [NL])"
      using d p by (rule line_start_in_Split)
    moreover have "prefix ''kind:'' ?l" by simp
    ultimately show ?thesis unfolding list_ex_iff by blast
  qed
  with iff show ?thesis by blast
qed

theorem secret_classification_witness:
  "isSecretDocument exKindDoc \<and> list_ex (prefix ''kind:'') (Split exKindDoc [NL])"
proof -
  have h: "isSecretDocument exKindDoc"
    by code_simp
  from secret_classification [of exKindDoc, THEN conjunct2] h
  have "list_ex (prefix ''kind:'') (Split exKindDoc [NL])"
    by (rule mp)
  with h show ?thesis by (rule conjI)
qed

section \<open>Properties of splitting and joining documents\<close>

lemma splitLoop_pos:
  "0 < i \<Longrightarrow> splitLoop i parts docs = docs @ map ((@) ''---'') parts"
  by (induction parts arbitrary: i docs) simp_all

lemma splitYAMLDocuments_parts:
  "\<exists>part parts. Split manifest (NL # ''---'') = part # parts
     \<and> splitYAMLDocuments manifest = part # map ((@) ''---'') parts"
proof -
  obtain part parts where "Split manifest (NL # ''---'') = part # parts"
    using Split_nonempty [of "NL # ''---''" manifest]
    by (cases "Split manifest (NL # ''---'')") auto
  then show ?thesis
    by (simp add: splitYAMLDocuments_def splitLoop_pos)
qed

lemma joinLoop_append:
  "joinLoop i (xs @ ys) acc = joinLoop (i + length xs) ys (joinLoop i xs acc)"
  by (induction xs arbitrary: i acc) simp_all

lemma joinLoop_extends: "\<exists>post. joinLoop i docs acc = acc @ post"
proof (induction docs arbitrary: i acc)
  case Nil
  show ?case by simp
next
  case (Cons d ds)
  let ?acc = "(if i > 0 then
           (let str = acc;
                result1 = (if length str > 0 \<and> \<not> HasSuffix str [NL] then acc @ [NL] else acc)
            in if \<not> HasPrefix d ''---'' then result1 @ ''---'' @ [NL] else result1)
         else acc) @ d"
  obtain post where "joinLoop (i + 1) ds ?acc = ?acc @ post"
    using Cons.IH by blast
  moreover have "\<exists>mid. ?acc = acc @ mid"
    by (simp add: Let_def)
  then obtain mid where "?acc = acc @ mid" ..
  ultimately have "joinLoop i (d # ds) acc = acc @ mid @ post"
    by simp
  then show ?case by blast
qed

text \<open>What is written before a document that starts with the separator.\<close>

lemma joinLoop_separator:
  assumes "0 < i" "prefix ''---'' d"
  shows "joinLoop i [d] acc = (if acc \<noteq> [] \<and> last acc \<noteq> NL then acc @ [NL] else acc) @ d"
  using assms by (cases acc rule: rev_cases) (auto simp: HasPrefix_def HasSuffix_def suffix_def)

section \<open>Redaction keeps the separator at the head of a document\<close>

lemma dash_no_pattern: "\<not> matchesDataPattern (CHR ''-'' # t)"
  by (simp add: matchesDataPattern_def dataPatterns_def HasPrefix_def)

lemma redactLines_first:
  assumes "\<not> matchesDataPattern (TrimSpace l)"
  shows "\<exists>R. redactLines (l # ls) = l # R"
proof -
  let ?s = "redactStep 0 l initState"
  have "result ?s = [l]"
    using redactStep_plain(1) [OF skipped_initState assms, of 0] by (simp add: initState_def)
  moreover obtain R where "result (redactLoop (0 + 1) ls ?s) = result ?s @ R"
    using redactLoop_sim [of ?s ?s "0 + 1" ls "0 + 1"] by blast
  ultimately show ?thesis by (simp add: redactLines_def)
qed

lemma redactDoc_separator:
  assumes "prefix ''---'' doc"
  shows "prefix ''---'' (redactDoc doc)"
proof (cases "isSecretDocument doc")
  case False
  with assms show ?thesis by (simp add: redactDoc_def)
next
  case True
  from assms obtain t where doc: "doc = ''---'' @ t" by (auto simp: prefix_def)
  let ?l = "takeWhile (\<lambda>x. x \<noteq> NL) doc"
  obtain ls where ls: "Split doc [NL] = ?l # ls"
    using Split_char_hd [of doc NL] by blast
  obtain u where l: "?l = ''---'' @ u" by (simp add: doc)
  then obtain t' where "TrimSpace ?l = CHR ''-'' # t'"
    using TrimSpace_dash [of "''--'' @ u"] by auto
  then have "\<not> matchesDataPattern (TrimSpace ?l)"
    by (simp add: dash_no_pattern)
  then obtain R where "redactLines (?l # ls) = ?l # R"
    using redactLines_first by blast
  then have "redactSecretDocument doc = ?l @ concat (map ((@) [NL]) R)"
    by (simp add: redactSecretDocument_def ls Join_Cons)
  then show ?thesis
    using True l by (simp add: redactDoc_def)
qed

lemma joinYAMLDocuments_loop: "joinYAMLDocuments docs = joinLoop 0 docs []"
  by (cases docs) (simp_all add: joinYAMLDocuments_def)

lemma RedactSecrets_map:
  "RedactSecrets manifest = joinLoop 0 (map redactDoc (splitYAMLDocuments manifest)) []"
  by (simp add: RedactSecrets_def redactDocs_map joinYAMLDocuments_loop)

text \<open>
  Claim C2. For every input, every document of the output but the first starts with
  the separator \<open>---\<close>, also after redaction, and stands directly behind the text
  joined so far, to which a newline has been added when it was not empty and did not end
  in one: the text before the separator is empty or ends in a newline, so the separator
  starts a line.
\<close>

theorem separator_on_own_line:
  assumes "0 < k" and "k < length (splitYAMLDocuments manifest)"
  shows "\<exists>before doc post.
           RedactSecrets manifest = before @ doc @ post
           \<and> doc = redactDoc (splitYAMLDocuments manifest ! k)
           \<and> prefix ''---'' doc
           \<and> (before = [] \<or> last before = NL)
           \<and> before =
               (let str = joinYAMLDocuments (map redactDoc (take k (splitYAMLDocuments manifest)))
                in if str \<noteq> [] \<and> last str \<noteq> NL then str @ [NL] else str)"
proof -
  let ?docs = "splitYAMLDocuments manifest"
  let ?d = "redactDoc (?docs ! k)"
  let ?str = "joinYAMLDocuments (map redactDoc (take k ?docs))"
  let ?before = "if ?str \<noteq> [] \<and> last ?str \<noteq> NL then ?str @ [NL] else ?str"
  obtain part parts where docs: "?docs = part # map ((@) ''---'') parts"
    using splitYAMLDocuments_parts by blast
  have "?docs ! k \<in> set (map ((@) ''---'') parts)"
    using assms docs by (cases k) auto
  then have "prefix ''---'' (?docs ! k)" by auto
  then have sep: "prefix ''---'' ?d" by (rule redactDoc_separator)
  have split: "?docs = take k ?docs @ ?docs ! k # drop (Suc k) ?docs"
    using assms(2) by (simp add: id_take_nth_drop)
  have "RedactSecrets manifest =
      joinLoop 0 (map redactDoc (take k ?docs) @ [?d] @ map redactDoc (drop (Suc k) ?docs)) []"
    by (subst RedactSecrets_map, subst split) simp
  also have "\<dots> = joinLoop (k + 1) (map redactDoc (drop (Suc k) ?docs)) (joinLoop k [?d] ?str)"
    using assms(2) by (simp add: joinLoop_append joinYAMLDocuments_loop min_def)
  also have "joinLoop k [?d] ?str = ?before @ ?d"
    using joinLoop_separator [OF assms(1) sep] by simp
  finally obtain post where "RedactSecrets manifest = (?before @ ?d) @ post"
    using joinLoop_extends by metis
  then have "RedactSecrets manifest = ?before @ ?d @ post
           \<and> ?d = redactDoc (?docs ! k)
           \<and> prefix ''---'' ?d
           \<and> (?before = [] \<or> last ?before = NL)
           \<and> ?before = (let str = ?str in if str \<noteq> [] \<and> last str \<noteq> NL then str @ [NL] else str)"
    using sep by (simp add: Let_def)
  then show ?thesis by blast
qed

theorem separator_on_own_line_witness:
  "(length (splitYAMLDocuments exStream) = 3
    \<and> RedactSecrets exStream =
        Join [''kind: ConfigMap'', ''data:'', ''  key: value'', ''---'', ''kind: Secret'', ''data:'',
              ''  # REDACTED - secrets are not included in shadow diffs'', ''---'',
              ''kind: Deployment''] [NL])
   \<and> (\<exists>before doc post.
           RedactSecrets exStream = before @ doc @ post
           \<and> doc = redactDoc (splitYAMLDocuments exStream ! 2)
           \<and> prefix ''---'' doc
           \<and> (before = [] \<or> last before = NL)
           \<and> before =
               (let str = joinYAMLDocuments (map redactDoc (take 2 (splitYAMLDocuments exStream)))
                in if str \<noteq> [] \<and> last str \<noteq> NL then str @ [NL] else str))"
proof -
  have len: "length (splitYAMLDocuments exStream) = 3"
    by code_simp
  have out: "RedactSecrets exStream =
        Join [''kind: ConfigMap'', ''data:'', ''  key: value'', ''---'', ''kind: Secret'', ''data:'',
              ''  # REDACTED - secrets are not included in shadow diffs'', ''---'',
              ''kind: Deployment''] [NL]"
    by code_simp
  have h1: "0 < (2::nat)"
    by simp
  have h2: "2 < length (splitYAMLDocuments exStream)"
    unfolding len by simp
  from len out have a: "length (splitYAMLDocuments exStream) = 3
    \<and> RedactSecrets exStream =
        Join [''kind: ConfigMap'', ''data:'', ''  key: value'', ''---'', ''kind: Secret'', ''data:'',
              ''  # REDACTED - secrets are not included in shadow diffs'', ''---'',
              ''kind: Deployment''] [NL]"
    by (rule conjI)
  from a separator_on_own_line [OF h1 h2] show ?thesis
    by (rule conjI)
qed

section \<open>Splitting and joining without redaction\<close>

lemma joinLoop_sep_step:
  assumes "0 < i" "prefix ''---'' d"
  shows "joinLoop i (d # ds) acc =
     joinLoop (Suc i) ds ((if acc \<noteq> [] \<and> last acc \<noteq> NL then acc @ [NL] else acc) @ d)"
  using assms by (cases acc rule: rev_cases) (auto simp: HasPrefix_def HasSuffix_def suffix_def)

lemma joinLoop_docs_good:
  assumes "0 < i"
    and "\<forall>d \<in> set ds. prefix ''---'' d"
    and "ds \<noteq> [] \<longrightarrow> acc \<noteq> [] \<and> last acc \<noteq> NL"
    and "\<forall>d \<in> set (butlast ds). last d \<noteq> NL"
  shows "joinLoop i ds acc = acc @ concat (map ((#) NL) ds)"
  using assms
proof (induction ds arbitrary: i acc)
  case Nil
  show ?case by simp
next
  case (Cons d ds)
  let ?acc = "acc @ NL # d"
  have p: "prefix ''---'' d" using Cons.prems(2) by simp
  then have dne: "d \<noteq> []" by auto
  have step: "joinLoop i (d # ds) acc = joinLoop (Suc i) ds ?acc"
    using Cons.prems(3) by (simp add: joinLoop_sep_step [OF Cons.prems(1) p] del: joinLoop.simps)
  have "ds \<noteq> [] \<longrightarrow> ?acc \<noteq> [] \<and> last ?acc \<noteq> NL"
    using Cons.prems(4) dne by auto
  moreover have "\<forall>d \<in> set (butlast ds). last d \<noteq> NL"
    using Cons.prems(4) by (auto split: if_splits)
  moreover have "\<forall>d \<in> set ds. prefix ''---'' d"
    using Cons.prems(2) by simp
  ultimately have "joinLoop (Suc i) ds ?acc = ?acc @ concat (map ((#) NL) ds)"
    by (intro Cons.IH) simp_all
  with step show ?case by simp
qed

lemma joinLoop_docs_length:
  assumes "0 < i" and "\<forall>d \<in> set ds. prefix ''---'' d"
  shows "length (joinLoop i ds acc) \<le> length acc + length (concat (map ((#) NL) ds))"
  using assms
proof (induction ds arbitrary: i acc)
  case Nil
  show ?case by simp
next
  case (Cons d ds)
  let ?acc = "(if acc \<noteq> [] \<and> last acc \<noteq> NL then acc @ [NL] else acc) @ d"
  have p: "prefix ''---'' d" using Cons.prems(2) by simp
  have "joinLoop i (d # ds) acc = joinLoop (Suc i) ds ?acc"
    by (rule joinLoop_sep_step [OF Cons.prems(1) p])
  moreover have "length (joinLoop (Suc i) ds ?acc)
      \<le> length ?acc + length (concat (map ((#) NL) ds))"
    using Cons.prems(2) by (intro Cons.IH) simp_all
  moreover have "length ?acc \<le> length acc + 1 + length d" by simp
  ultimately show ?case by simp
qed

lemma joinLoop_docs_short_acc:
  assumes "0 < i" and "\<forall>d \<in> set ds. prefix ''---'' d"
    and "ds \<noteq> []" and "acc = [] \<or> last acc = NL"
  shows "length (joinLoop i ds acc) < length acc + length (concat (map ((#) NL) ds))"
proof -
  obtain d es where ds: "ds = d # es" using assms(3) by (cases ds) auto
  let ?acc = "acc @ d"
  have p: "prefix ''---'' d" using assms(2) ds by simp
  have "joinLoop i ds acc = joinLoop (Suc i) es ?acc"
    unfolding ds using assms(4) by (auto simp: joinLoop_sep_step [OF assms(1) p] simp del: joinLoop.simps)
  moreover have "length (joinLoop (Suc i) es ?acc)
      \<le> length ?acc + length (concat (map ((#) NL) es))"
    using assms(2) ds by (intro joinLoop_docs_length) simp_all
  ultimately show ?thesis by (simp add: ds)
qed

lemma joinLoop_docs_short_doc:
  assumes "0 < i" and "\<forall>d \<in> set ds. prefix ''---'' d"
    and "\<not> (\<forall>d \<in> set (butlast ds). last d \<noteq> NL)"
  shows "length (joinLoop i ds acc) < length acc + length (concat (map ((#) NL) ds))"
  using assms
proof (induction ds arbitrary: i acc)
  case Nil
  then show ?case by simp
next
  case (Cons d ds)
  let ?acc = "(if acc \<noteq> [] \<and> last acc \<noteq> NL then acc @ [NL] else acc) @ d"
  have p: "prefix ''---'' d" using Cons.prems(2) by simp
  then have dne: "d \<noteq> []" by auto
  have rest: "\<forall>d \<in> set ds. prefix ''---'' d" using Cons.prems(2) by simp
  have step: "joinLoop i (d # ds) acc = joinLoop (Suc i) ds ?acc"
    by (rule joinLoop_sep_step [OF Cons.prems(1) p])
  have len: "length ?acc \<le> length acc + 1 + length d" by simp
  from Cons.prems(3) have ne: "ds \<noteq> []" by (auto split: if_splits)
  have "length (joinLoop (Suc i) ds ?acc) < length ?acc + length (concat (map ((#) NL) ds))"
  proof (cases "last d = NL")
    case True
    then have "last ?acc = NL" using dne by simp
    then show ?thesis using ne rest by (intro joinLoop_docs_short_acc) simp_all
  next
    case False
    with Cons.prems(3) ne have "\<not> (\<forall>d \<in> set (butlast ds). last d \<noteq> NL)"
      by auto
    then show ?thesis using rest by (intro Cons.IH) simp_all
  qed
  with step len show ?case by simp
qed

lemma join_split_identity:
  "joinYAMLDocuments (splitYAMLDocuments manifest) = manifest \<longleftrightarrow>
     (\<forall>d \<in> set (butlast (splitYAMLDocuments manifest)). d \<noteq> [] \<and> last d \<noteq> NL)"
proof -
  obtain part parts where parts: "Split manifest (NL # ''---'') = part # parts"
    and docs: "splitYAMLDocuments manifest = part # map ((@) ''---'') parts"
    using splitYAMLDocuments_parts by blast
  define ds where "ds = map ((@) ''---'') parts"
  have pre: "\<forall>d \<in> set ds. prefix ''---'' d" by (auto simp: ds_def)
  then have ne: "\<forall>d \<in> set ds. d \<noteq> []" by auto
  have "manifest = part @ concat (map ((@) (NL # ''---'')) parts)"
    using Join_Split [of "NL # ''---''" manifest] by (simp add: parts Join_Cons)
  also have "concat (map ((@) (NL # ''---'')) parts) = concat (map ((#) NL) ds)"
    unfolding ds_def by (induction parts) simp_all
  finally have m: "manifest = part @ concat (map ((#) NL) ds)" .
  have j: "joinYAMLDocuments (splitYAMLDocuments manifest) = joinLoop (Suc 0) ds part"
    by (simp add: docs joinYAMLDocuments_loop ds_def)
  have cond: "(\<forall>d \<in> set (butlast (splitYAMLDocuments manifest)). d \<noteq> [] \<and> last d \<noteq> NL) \<longleftrightarrow>
      (ds \<noteq> [] \<longrightarrow> part \<noteq> [] \<and> last part \<noteq> NL) \<and> (\<forall>d \<in> set (butlast ds). last d \<noteq> NL)"
    using ne unfolding docs ds_def [symmetric] by (auto dest: in_set_butlastD)
  show ?thesis
  proof (cases "(ds \<noteq> [] \<longrightarrow> part \<noteq> [] \<and> last part \<noteq> NL)
      \<and> (\<forall>d \<in> set (butlast ds). last d \<noteq> NL)")
    case True
    then have "joinLoop (Suc 0) ds part = part @ concat (map ((#) NL) ds)"
      using pre by (intro joinLoop_docs_good) simp_all
    with True show ?thesis unfolding cond j using m by simp
  next
    case False
    have "length (joinLoop (Suc 0) ds part) < length part + length (concat (map ((#) NL) ds))"
    proof (cases "ds \<noteq> [] \<and> (part = [] \<or> last part = NL)")
      case True
      then show ?thesis using pre by (intro joinLoop_docs_short_acc) simp_all
    next
      case no: False
      with False have "\<not> (\<forall>d \<in> set (butlast ds). last d \<noteq> NL)" by blast
      then show ?thesis using pre by (intro joinLoop_docs_short_doc) simp_all
    qed
    moreover have "length manifest = length part + length (concat (map ((#) NL) ds))"
      by (subst m) simp
    ultimately have "length (joinYAMLDocuments (splitYAMLDocuments manifest)) < length manifest"
      unfolding j by simp
    then have "joinYAMLDocuments (splitYAMLDocuments manifest) \<noteq> manifest" by auto
    with False show ?thesis unfolding cond by simp
  qed
qed

text \<open>
  Claim C5 as stated fails: a document that ends in a newline before a separator (a
  blank line before \<open>---\<close>) gets no newline back when the documents are joined, so
  the output is one byte shorter than the input although no document is a Secret; with
  two blank lines a second pass removes one more byte, so the function is not idempotent
  there either.
\<close>

theorem nonsecret_passthrough_counterexample:
  "list_all (\<lambda>d. \<not> isSecretDocument d) (splitYAMLDocuments exBlank)
   \<and> RedactSecrets exBlank = Join [''a: 1'', ''---'', ''b: 2''] [NL]
   \<and> RedactSecrets exBlank \<noteq> exBlank
   \<and> list_all (\<lambda>d. \<not> isSecretDocument d) (splitYAMLDocuments exBlank2)
   \<and> RedactSecrets exBlank2 = Join [''a: 1'', [], ''---'', ''b: 2''] [NL]
   \<and> RedactSecrets (RedactSecrets exBlank2) = Join [''a: 1'', ''---'', ''b: 2''] [NL]
   \<and> RedactSecrets (RedactSecrets exBlank2) \<noteq> RedactSecrets exBlank2"
proof -
  have a: "list_all (\<lambda>d. \<not> isSecretDocument d) (splitYAMLDocuments exBlank)"
    by code_simp
  have b: "RedactSecrets exBlank = Join [''a: 1'', ''---'', ''b: 2''] [NL]"
    by code_simp
  have c: "RedactSecrets exBlank \<noteq> exBlank"
    unfolding b by (simp add: exBlank_def)
  have d: "list_all (\<lambda>d. \<not> isSecretDocument d) (splitYAMLDocuments exBlank2)"
    by code_simp
  have e: "RedactSecrets exBlank2 = Join [''a: 1'', [], ''---'', ''b: 2''] [NL]"
    by code_simp
  have f: "RedactSecrets (RedactSecrets exBlank2) = Join [''a: 1'', ''---'', ''b: 2''] [NL]"
    by code_simp
  have g: "RedactSecrets (RedactSecrets exBlank2) \<noteq> RedactSecrets exBlank2"
    unfolding f unfolding e by simp
  show ?thesis
    by (intro conjI a b c d e f g)
qed

text \<open>
  Claim C5, amended. For every input in which no document is classified as a Secret,
  \<open>RedactSecrets\<close> returns the input unchanged, byte for byte, exactly when every
  document that a separator follows is non-empty and does not end in a newline (the
  input does not start with a newline and the separator, and no blank line stands
  before a separator); for such inputs
  \<open>RedactSecrets (RedactSecrets x) = RedactSecrets x\<close>.
\<close>

theorem nonsecret_passthrough:
  assumes "\<forall>d \<in> set (splitYAMLDocuments manifest). \<not> isSecretDocument d"
  shows "(RedactSecrets manifest = manifest \<longleftrightarrow>
           (\<forall>d \<in> set (butlast (splitYAMLDocuments manifest)). d \<noteq> [] \<and> last d \<noteq> NL))
         \<and> ((\<forall>d \<in> set (butlast (splitYAMLDocuments manifest)). d \<noteq> [] \<and> last d \<noteq> NL)
              \<longrightarrow> RedactSecrets (RedactSecrets manifest) = RedactSecrets manifest)"
proof -
  have "map redactDoc (splitYAMLDocuments manifest) = splitYAMLDocuments manifest"
    using assms by (intro map_idI) (simp add: redactDoc_def)
  then have r: "RedactSecrets manifest = joinYAMLDocuments (splitYAMLDocuments manifest)"
    by (simp add: RedactSecrets_def redactDocs_map)
  have iff: "RedactSecrets manifest = manifest \<longleftrightarrow>
           (\<forall>d \<in> set (butlast (splitYAMLDocuments manifest)). d \<noteq> [] \<and> last d \<noteq> NL)"
    unfolding r by (rule join_split_identity)
  have idem: "RedactSecrets (RedactSecrets manifest) = RedactSecrets manifest"
    if "\<forall>d \<in> set (butlast (splitYAMLDocuments manifest)). d \<noteq> [] \<and> last d \<noteq> NL"
  proof -
    from that iff have "RedactSecrets manifest = manifest" by blast
    then show ?thesis by simp
  qed
  from iff idem show ?thesis by blast
qed

theorem nonsecret_passthrough_witness:
  "RedactSecrets exConfig = exConfig
   \<and> RedactSecrets (RedactSecrets exConfig) = RedactSecrets exConfig"
proof -
  have h: "\<forall>d \<in> set (splitYAMLDocuments exConfig). \<not> isSecretDocument d"
    by code_simp
  have c: "\<forall>d \<in> set (butlast (splitYAMLDocuments exConfig)). d \<noteq> [] \<and> last d \<noteq> NL"
    by code_simp
  note t = nonsecret_passthrough [OF h]
  have a: "RedactSecrets exConfig = exConfig"
    using t [THEN conjunct1] c by (rule iffD2)
  have b: "RedactSecrets (RedactSecrets exConfig) = RedactSecrets exConfig"
    using t [THEN conjunct2] c by (rule mp)
  from a b show ?thesis by (rule conjI)
qed

section \<open>Properties of value file resolution\<close>

lemma resolveLoop_eq:
  "resolveLoop pj ne repo vfs resolved =
     (case find (\<lambda>vf. prefix ''$values/'' vf \<and> ne (pj repo (TrimPrefix vf ''$values/''))) vfs of
        None \<Rightarrow> Inr (resolved
                  @ map (\<lambda>vf. if prefix ''$values/'' vf then pj repo (TrimPrefix vf ''$values/'') else vf) vfs)
      | Some vf \<Rightarrow> Inl (ValueFileNotFound (pj repo (TrimPrefix vf ''$values/'')) vf))"
  by (induction vfs arbitrary: resolved) (auto simp: HasPrefix_def Let_def split: option.split)

text \<open>
  Claim C9. \<open>ResolveValueFiles\<close> fails with the error of the first entry that starts
  with \<open>$values/\<close> and whose path (the entry without the prefix, joined to the
  repository root) does not exist, and then returns no list at all; when there is no
  such entry it returns, in the order of the input, the joined path for every entry that
  starts with \<open>$values/\<close> and every other entry as it is.
\<close>

theorem resolve_value_files:
  "ResolveValueFiles pathJoin notExist valueFiles repoPath =
     (case find (\<lambda>vf. prefix ''$values/'' vf \<and> notExist (pathJoin repoPath (TrimPrefix vf ''$values/''))) valueFiles of
        None \<Rightarrow> Inr (map (\<lambda>vf. if prefix ''$values/'' vf then pathJoin repoPath (TrimPrefix vf ''$values/'') else vf)
                     valueFiles)
      | Some vf \<Rightarrow> Inl (ValueFileNotFound (pathJoin repoPath (TrimPrefix vf ''$values/'')) vf))
   \<and> (\<forall>before vf after.
         valueFiles = before @ vf # after
         \<and> (\<forall>x \<in> set before. prefix ''$values/'' x \<longrightarrow> \<not> notExist (pathJoin repoPath (TrimPrefix x ''$values/'')))
         \<and> prefix ''$values/'' vf \<and> notExist (pathJoin repoPath (TrimPrefix vf ''$values/''))
         \<longrightarrow> ResolveValueFiles pathJoin notExist valueFiles repoPath =
               Inl (ValueFileNotFound (pathJoin repoPath (TrimPrefix vf ''$values/'')) vf))
   \<and> ((\<forall>x \<in> set valueFiles. prefix ''$values/'' x \<longrightarrow> \<not> notExist (pathJoin repoPath (TrimPrefix x ''$values/'')))
        \<longrightarrow> ResolveValueFiles pathJoin notExist valueFiles repoPath =
              Inr (map (\<lambda>vf. if prefix ''$values/'' vf then pathJoin repoPath (TrimPrefix vf ''$values/'') else vf)
                     valueFiles))"
proof -
  let ?bad = "\<lambda>vf. prefix ''$values/'' vf \<and> notExist (pathJoin repoPath (TrimPrefix vf ''$values/''))"
  have eq: "ResolveValueFiles pathJoin notExist valueFiles repoPath =
     (case find ?bad valueFiles of
        None \<Rightarrow> Inr (map (\<lambda>vf. if prefix ''$values/'' vf then pathJoin repoPath (TrimPrefix vf ''$values/'') else vf)
                     valueFiles)
      | Some vf \<Rightarrow> Inl (ValueFileNotFound (pathJoin repoPath (TrimPrefix vf ''$values/'')) vf))"
    by (simp add: ResolveValueFiles_def resolveLoop_eq split: option.split)
  have first: "ResolveValueFiles pathJoin notExist valueFiles repoPath =
               Inl (ValueFileNotFound (pathJoin repoPath (TrimPrefix vf ''$values/'')) vf)"
    if "valueFiles = before @ vf # after"
      and "\<forall>x \<in> set before. prefix ''$values/'' x \<longrightarrow> \<not> notExist (pathJoin repoPath (TrimPrefix x ''$values/''))"
      and "prefix ''$values/'' vf" and "notExist (pathJoin repoPath (TrimPrefix vf ''$values/''))"
    for before vf after
  proof -
    have "find ?bad (before @ vf # after) = Some vf"
      using that(2-4) by (induction before) auto
    then show ?thesis unfolding eq by (simp add: that(1))
  qed
  have all: "ResolveValueFiles pathJoin notExist valueFiles repoPath =
              Inr (map (\<lambda>vf. if prefix ''$values/'' vf then pathJoin repoPath (TrimPrefix vf ''$values/'') else vf)
                     valueFiles)"
    if "\<forall>x \<in> set valueFiles. prefix ''$values/'' x \<longrightarrow> \<not> notExist (pathJoin repoPath (TrimPrefix x ''$values/''))"
  proof -
    have "find ?bad valueFiles = None"
      using that by (auto simp: find_None_iff)
    then show ?thesis by (simp add: eq)
  qed
  from eq first all show ?thesis by blast
qed

theorem resolve_value_files_witness:
  "ResolveValueFiles exJoin exMissing [''$values/apps/krr/base/values.yaml'', ''extra.yaml''] ''/repo'' =
     Inr [''/repo/apps/krr/base/values.yaml'', ''extra.yaml'']
   \<and> ResolveValueFiles exJoin exMissing
       [''a.yaml'', ''$values/ok.yaml'', ''$values/nonexistent/values.yaml'', ''$values/late.yaml'']
       ''/repo'' =
     Inl (ValueFileNotFound ''/repo/nonexistent/values.yaml'' ''$values/nonexistent/values.yaml'')"
proof -
  note t = resolve_value_files [of exJoin exMissing _ "''/repo''"]
  have a: "ResolveValueFiles exJoin exMissing [''$values/apps/krr/base/values.yaml'', ''extra.yaml''] ''/repo'' =
     Inr [''/repo/apps/krr/base/values.yaml'', ''extra.yaml'']"
    using t [of "[''$values/apps/krr/base/values.yaml'', ''extra.yaml'']", THEN conjunct2, THEN conjunct2]
    by (simp add: exJoin_def exMissing_def TrimPrefix_def HasPrefix_def)
  have b: "ResolveValueFiles exJoin exMissing
       [''a.yaml'', ''$values/ok.yaml'', ''$values/nonexistent/values.yaml'', ''$values/late.yaml'']
       ''/repo'' =
     Inl (ValueFileNotFound ''/repo/nonexistent/values.yaml'' ''$values/nonexistent/values.yaml'')"
    using t [of "[''a.yaml'', ''$values/ok.yaml'', ''$values/nonexistent/values.yaml'', ''$values/late.yaml'']",
        THEN conjunct2, THEN conjunct1, rule_format,
        of "[''a.yaml'', ''$values/ok.yaml'']" "''$values/nonexistent/values.yaml''" "[''$values/late.yaml'']"]
    by (simp add: exJoin_def exMissing_def TrimPrefix_def HasPrefix_def)
  from a b show ?thesis by (rule conjI)
qed

section \<open>Properties of discovery\<close>

lemma containsString_iff: "containsString slice val \<longleftrightarrow> val \<in> set slice"
  by (induction slice) auto

lemma newAppMatches_set:
  "set (newAppMatches clusters matches dirSet) =
     set dirSet \<union>
     relDirOf ` {m \<in> set matches.
        \<not> (clusters \<noteq> [] \<and> snd (extractClusterFromAppPath (relDirOf m))
            \<and> fst (extractClusterFromAppPath (relDirOf m)) \<notin> set clusters)}"
  by (induction matches arbitrary: dirSet)
    (auto simp: Let_def containsString_iff split: prod.splits)

lemma infraMatches_set:
  "set (infraMatches clusters matches dirSet) =
     set dirSet \<union>
     relDirOf ` {m \<in> set matches. \<not> (clusters \<noteq> [] \<and> Base (relDirOf m) \<notin> set clusters)}"
  by (induction matches arbitrary: dirSet) (auto simp: Let_def containsString_iff)

lemma legacyAppMatches_set:
  assumes "\<forall>m \<in> set matches. isClusterDirectory tree (relDirOf m) \<noteq> None"
  shows "\<exists>dirSet'. legacyAppMatches tree matches dirSet = Some dirSet'
     \<and> set dirSet' =
       set dirSet \<union>
       relDirOf ` {m \<in> set matches. isClusterDirectory tree (relDirOf m) = Some False}"
  using assms
proof (induction matches arbitrary: dirSet)
  case Nil
  show ?case by simp
next
  case (Cons m ms)
  from Cons.prems obtain b where b: "isClusterDirectory tree (relDirOf m) = Some b" by auto
  have rest: "\<forall>m \<in> set ms. isClusterDirectory tree (relDirOf m) \<noteq> None"
    using Cons.prems by simp
  show ?case
  proof (cases "relDirOf m \<in> set dirSet \<or> b")
    case True
    then have "legacyAppMatches tree (m # ms) dirSet = legacyAppMatches tree ms dirSet"
      using b by (auto simp: Let_def)
    moreover obtain d where "legacyAppMatches tree ms dirSet = Some d"
      and "set d = set dirSet \<union>
          relDirOf ` {m \<in> set ms. isClusterDirectory tree (relDirOf m) = Some False}"
      using Cons.IH [OF rest] by blast
    ultimately show ?thesis using True b by auto
  next
    case False
    then have "legacyAppMatches tree (m # ms) dirSet =
        legacyAppMatches tree ms (List.insert (relDirOf m) dirSet)"
      using b by (auto simp: Let_def)
    moreover obtain d where "legacyAppMatches tree ms (List.insert (relDirOf m) dirSet) = Some d"
      and "set d = set (List.insert (relDirOf m) dirSet) \<union>
          relDirOf ` {m \<in> set ms. isClusterDirectory tree (relDirOf m) = Some False}"
      using Cons.IH [OF rest] by blast
    ultimately show ?thesis using False b by auto
  qed
qed

lemma Split_patterns:
  "Split ''apps/*/overlays/*/*'' ''/'' = [''apps'', ''*'', ''overlays'', ''*'', ''*'']"
  "Split ''apps/*/stack/*/*'' ''/'' = [''apps'', ''*'', ''stack'', ''*'', ''*'']"
  "Split ''apps/*/db/overlays/*/*'' ''/'' = [''apps'', ''*'', ''db'', ''overlays'', ''*'', ''*'']"
  "Split ''apps/*/overlays/*'' ''/'' = [''apps'', ''*'', ''overlays'', ''*'']"
  "Split ''apps/*/stack/*'' ''/'' = [''apps'', ''*'', ''stack'', ''*'']"
  "Split ''apps/*/db/overlays/*'' ''/'' = [''apps'', ''*'', ''db'', ''overlays'', ''*'']"
  "Split ''infrastructure/*/overlays/*'' ''/'' = [''infrastructure'', ''*'', ''overlays'', ''*'']"
  "Split ''operators/*/overlays/*'' ''/'' = [''operators'', ''*'', ''overlays'', ''*'']"
  "Split ''security/*/overlays/*'' ''/'' = [''security'', ''*'', ''overlays'', ''*'']"
  by code_simp+

lemma globPattern_fixed:
  assumes "pattern \<in> set (newAppPatterns @ legacyAppPatterns @ infraPatterns)"
  shows "globPattern tree pattern = Some (filter (matchesPattern pattern) tree)"
proof -
  have "\<not> list_ex (\<lambda>pat. pat \<noteq> ''*'' \<and> hasMeta pat) (Split pattern ''/'' @ [''kustomization.yaml''])"
    using assms
    by (auto simp: newAppPatterns_def legacyAppPatterns_def infraPatterns_def Split_patterns
        hasMeta_def)
  then show ?thesis
    by (simp add: globPattern_def Glob_def matchesPattern_def [abs_def])
qed

lemma newAppLoop_set:
  assumes "\<forall>p \<in> set patterns. globPattern tree p = Some (filter (matchesPattern p) tree)"
  shows "\<exists>d. newAppLoop tree clusters patterns dirSet = Some d
     \<and> set d = set dirSet \<union>
         relDirOf ` {m \<in> set tree. (\<exists>p \<in> set patterns. matchesPattern p m)
           \<and> \<not> (clusters \<noteq> [] \<and> snd (extractClusterFromAppPath (relDirOf m))
                \<and> fst (extractClusterFromAppPath (relDirOf m)) \<notin> set clusters)}"
  using assms
proof (induction patterns arbitrary: dirSet)
  case Nil
  show ?case by simp
next
  case (Cons p ps)
  let ?d1 = "newAppMatches clusters (filter (matchesPattern p) tree) dirSet"
  have g: "globPattern tree p = Some (filter (matchesPattern p) tree)"
    using Cons.prems by simp
  obtain d where d: "newAppLoop tree clusters ps ?d1 = Some d"
    and s: "set d = set ?d1 \<union>
         relDirOf ` {m \<in> set tree. (\<exists>p \<in> set ps. matchesPattern p m)
           \<and> \<not> (clusters \<noteq> [] \<and> snd (extractClusterFromAppPath (relDirOf m))
                \<and> fst (extractClusterFromAppPath (relDirOf m)) \<notin> set clusters)}"
    using Cons.IH [of ?d1] Cons.prems by auto
  have "newAppLoop tree clusters (p # ps) dirSet = Some d"
    by (simp add: g d)
  moreover have "set d = set dirSet \<union>
         relDirOf ` {m \<in> set tree. (\<exists>q \<in> set (p # ps). matchesPattern q m)
           \<and> \<not> (clusters \<noteq> [] \<and> snd (extractClusterFromAppPath (relDirOf m))
                \<and> fst (extractClusterFromAppPath (relDirOf m)) \<notin> set clusters)}"
    unfolding s newAppMatches_set by auto
  ultimately show ?case by blast
qed

lemma infraLoop_set:
  assumes "\<forall>p \<in> set patterns. globPattern tree p = Some (filter (matchesPattern p) tree)"
  shows "\<exists>d. infraLoop tree clusters patterns dirSet = Some d
     \<and> set d = set dirSet \<union>
         relDirOf ` {m \<in> set tree. (\<exists>p \<in> set patterns. matchesPattern p m)
           \<and> \<not> (clusters \<noteq> [] \<and> Base (relDirOf m) \<notin> set clusters)}"
  using assms
proof (induction patterns arbitrary: dirSet)
  case Nil
  show ?case by simp
next
  case (Cons p ps)
  let ?d1 = "infraMatches clusters (filter (matchesPattern p) tree) dirSet"
  have g: "globPattern tree p = Some (filter (matchesPattern p) tree)"
    using Cons.prems by simp
  obtain d where d: "infraLoop tree clusters ps ?d1 = Some d"
    and s: "set d = set ?d1 \<union>
         relDirOf ` {m \<in> set tree. (\<exists>p \<in> set ps. matchesPattern p m)
           \<and> \<not> (clusters \<noteq> [] \<and> Base (relDirOf m) \<notin> set clusters)}"
    using Cons.IH [of ?d1] Cons.prems by auto
  have "infraLoop tree clusters (p # ps) dirSet = Some d"
    by (simp add: g d)
  moreover have "set d = set dirSet \<union>
         relDirOf ` {m \<in> set tree. (\<exists>q \<in> set (p # ps). matchesPattern q m)
           \<and> \<not> (clusters \<noteq> [] \<and> Base (relDirOf m) \<notin> set clusters)}"
    unfolding s infraMatches_set by auto
  ultimately show ?case by blast
qed

lemma legacyAppLoop_set:
  assumes "\<forall>p \<in> set patterns. globPattern tree p = Some (filter (matchesPattern p) tree)"
    and "\<forall>m \<in> set tree. (\<exists>p \<in> set patterns. matchesPattern p m)
           \<longrightarrow> isClusterDirectory tree (relDirOf m) \<noteq> None"
  shows "\<exists>d. legacyAppLoop tree patterns dirSet = Some d
     \<and> set d = set dirSet \<union>
         relDirOf ` {m \<in> set tree. (\<exists>p \<in> set patterns. matchesPattern p m)
           \<and> isClusterDirectory tree (relDirOf m) = Some False}"
  using assms
proof (induction patterns arbitrary: dirSet)
  case Nil
  show ?case by simp
next
  case (Cons p ps)
  have g: "globPattern tree p = Some (filter (matchesPattern p) tree)"
    using Cons.prems by simp
  have "\<forall>m \<in> set (filter (matchesPattern p) tree). isClusterDirectory tree (relDirOf m) \<noteq> None"
    using Cons.prems(2) by simp
  from legacyAppMatches_set [OF this, of dirSet]
  obtain d1 where d1: "legacyAppMatches tree (filter (matchesPattern p) tree) dirSet = Some d1"
    and s1: "set d1 = set dirSet \<union>
       relDirOf ` {m \<in> set (filter (matchesPattern p) tree).
          isClusterDirectory tree (relDirOf m) = Some False}"
    by blast
  obtain d where d: "legacyAppLoop tree ps d1 = Some d"
    and s: "set d = set d1 \<union>
         relDirOf ` {m \<in> set tree. (\<exists>p \<in> set ps. matchesPattern p m)
           \<and> isClusterDirectory tree (relDirOf m) = Some False}"
    using Cons.IH [of d1] Cons.prems by auto
  have "legacyAppLoop tree (p # ps) dirSet = Some d"
    by (simp add: g d1 d)
  moreover have "set d = set dirSet \<union>
         relDirOf ` {m \<in> set tree. (\<exists>q \<in> set (p # ps). matchesPattern q m)
           \<and> isClusterDirectory tree (relDirOf m) = Some False}"
    unfolding s s1 by auto
  ultimately show ?case by blast
qed

lemma validName_matchName: "validName n \<Longrightarrow> matchName n x \<longleftrightarrow> n = x"
  by (auto simp: validName_def matchName_def hasMeta_def)

lemma valid_names_match:
  "list_all validName d \<Longrightarrow> list_all2 matchName d us \<longleftrightarrow> us = d"
proof (induction d arbitrary: us)
  case Nil
  show ?case by auto
next
  case (Cons n d)
  then show ?case by (cases us) (auto simp: validName_matchName)
qed

lemma isClusterDirectory_valid:
  assumes "d \<noteq> []" and "list_all validName d"
  shows "isClusterDirectory tree (Join d ''/'') =
           Some (\<exists>x. d @ [x, ''kustomization.yaml''] \<in> set tree)"
proof -
  have "\<forall>n \<in> set d. CHR ''/'' \<notin> set n"
    using assms(2) by (auto simp: list_all_iff validName_def)
  then have split: "Split (Join d ''/'') ''/'' = d"
    using assms(1) by (intro Split_Join_names) simp_all
  have nometa: "\<not> list_ex (\<lambda>pat. pat \<noteq> ''*'' \<and> hasMeta pat) (d @ [''*'', ''kustomization.yaml''])"
    using assms(2) by (auto simp: list_all_iff list_ex_iff validName_def hasMeta_def)
  have m: "list_all2 matchName (d @ [''*'', ''kustomization.yaml'']) e \<longleftrightarrow>
      (\<exists>x. e = d @ [x, ''kustomization.yaml''])" for e
    using assms(2)
    by (auto simp: list_all2_append1 valid_names_match list_all2_Cons1 matchName_def)
  have "filter (list_all2 matchName (d @ [''*'', ''kustomization.yaml''])) tree \<noteq> [] \<longleftrightarrow>
      (\<exists>x. d @ [x, ''kustomization.yaml''] \<in> set tree)"
    by (auto simp: filter_empty_conv m)
  then show ?thesis
    using nometa by (simp add: isClusterDirectory_def split Glob_def)
qed

lemma Join_names_inject:
  assumes "d \<noteq> []" "d' \<noteq> []" and "list_all validName d" "list_all validName d'"
    and "Join d ''/'' = Join d' ''/''"
  shows "d = d'"
proof -
  have a: "\<forall>n \<in> set d. CHR ''/'' \<notin> set n" and b: "\<forall>n \<in> set d'. CHR ''/'' \<notin> set n"
    using assms(3,4) by (auto simp: list_all_iff validName_def)
  have "d = Split (Join d ''/'') ''/''"
    using assms(1) a by (rule Split_Join_names [symmetric])
  also have "\<dots> = Split (Join d' ''/'') ''/''"
    by (simp only: assms(5))
  also have "\<dots> = d'"
    using assms(2) b by (rule Split_Join_names)
  finally show ?thesis .
qed

lemma matchesPattern_length:
  assumes "p \<in> set (newAppPatterns @ legacyAppPatterns @ infraPatterns)" "matchesPattern p m"
  shows "5 \<le> length m"
  using assms
  by (auto simp: newAppPatterns_def legacyAppPatterns_def infraPatterns_def matchesPattern_def
      Split_patterns dest!: list_all2_lengthD)

lemma matchesPattern_new:
  "(\<exists>p \<in> set newAppPatterns. matchesPattern p m) \<longleftrightarrow>
     (\<exists>a c e. m = [''apps'', a, ''overlays'', c, e, ''kustomization.yaml'']
        \<or> m = [''apps'', a, ''stack'', c, e, ''kustomization.yaml'']
        \<or> m = [''apps'', a, ''db'', ''overlays'', c, e, ''kustomization.yaml''])"
  by (auto simp: newAppPatterns_def matchesPattern_def Split_patterns list_all2_Cons1 matchName_def)

lemma matchesPattern_legacy:
  "(\<exists>p \<in> set legacyAppPatterns. matchesPattern p m) \<longleftrightarrow>
     (\<exists>a e. m = [''apps'', a, ''overlays'', e, ''kustomization.yaml'']
        \<or> m = [''apps'', a, ''stack'', e, ''kustomization.yaml'']
        \<or> m = [''apps'', a, ''db'', ''overlays'', e, ''kustomization.yaml''])"
  by (auto simp: legacyAppPatterns_def matchesPattern_def Split_patterns list_all2_Cons1 matchName_def)

lemma matchesPattern_infra:
  "(\<exists>p \<in> set infraPatterns. matchesPattern p m) \<longleftrightarrow>
     (\<exists>a e. m = [''infrastructure'', a, ''overlays'', e, ''kustomization.yaml'']
        \<or> m = [''operators'', a, ''overlays'', e, ''kustomization.yaml'']
        \<or> m = [''security'', a, ''overlays'', e, ''kustomization.yaml''])"
  by (auto simp: infraPatterns_def matchesPattern_def Split_patterns list_all2_Cons1 matchName_def)

lemma valid_dir:
  assumes "validTree tree" "m \<in> set tree"
  shows "list_all validName (butlast m)"
  using assms by (auto simp: validTree_def list_all_iff dest: in_set_butlastD)

lemma legacy_defined:
  assumes "validTree tree" "m \<in> set tree" "\<exists>p \<in> set legacyAppPatterns. matchesPattern p m"
  shows "isClusterDirectory tree (relDirOf m) =
           Some (\<exists>x. butlast m @ [x, ''kustomization.yaml''] \<in> set tree)"
proof -
  from assms(3) obtain p where "p \<in> set legacyAppPatterns" "matchesPattern p m" by blast
  then have "5 \<le> length m" by (intro matchesPattern_length [of p]) simp_all
  then have "butlast m \<noteq> []" by (cases m rule: rev_cases) auto
  then show ?thesis
    unfolding relDirOf_def using valid_dir [OF assms(1,2)] by (rule isClusterDirectory_valid)
qed

lemma Discover_set:
  assumes "validTree tree"
  shows "\<exists>dirs. DiscoverKustomizationsForSync tree clusters = Some dirs \<and> set dirs =
     relDirOf ` {m \<in> set tree. (\<exists>p \<in> set newAppPatterns. matchesPattern p m)
           \<and> \<not> (clusters \<noteq> [] \<and> snd (extractClusterFromAppPath (relDirOf m))
                \<and> fst (extractClusterFromAppPath (relDirOf m)) \<notin> set clusters)}
     \<union> relDirOf ` {m \<in> set tree. (\<exists>p \<in> set legacyAppPatterns. matchesPattern p m)
           \<and> isClusterDirectory tree (relDirOf m) = Some False}
     \<union> relDirOf ` {m \<in> set tree. (\<exists>p \<in> set infraPatterns. matchesPattern p m)
           \<and> \<not> (clusters \<noteq> [] \<and> Base (relDirOf m) \<notin> set clusters)}"
proof -
  have g1: "\<forall>p \<in> set newAppPatterns. globPattern tree p = Some (filter (matchesPattern p) tree)"
    and g2: "\<forall>p \<in> set legacyAppPatterns. globPattern tree p = Some (filter (matchesPattern p) tree)"
    and g3: "\<forall>p \<in> set infraPatterns. globPattern tree p = Some (filter (matchesPattern p) tree)"
    by (simp_all add: globPattern_fixed)
  have def: "\<forall>m \<in> set tree. (\<exists>p \<in> set legacyAppPatterns. matchesPattern p m)
           \<longrightarrow> isClusterDirectory tree (relDirOf m) \<noteq> None"
    using legacy_defined [OF assms] by simp
  obtain d1 where d1: "newAppLoop tree clusters newAppPatterns [] = Some d1"
    and s1: "set d1 = set [] \<union>
         relDirOf ` {m \<in> set tree. (\<exists>p \<in> set newAppPatterns. matchesPattern p m)
           \<and> \<not> (clusters \<noteq> [] \<and> snd (extractClusterFromAppPath (relDirOf m))
                \<and> fst (extractClusterFromAppPath (relDirOf m)) \<notin> set clusters)}"
    using newAppLoop_set [OF g1] by blast
  obtain d2 where d2: "legacyAppLoop tree legacyAppPatterns d1 = Some d2"
    and s2: "set d2 = set d1 \<union>
         relDirOf ` {m \<in> set tree. (\<exists>p \<in> set legacyAppPatterns. matchesPattern p m)
           \<and> isClusterDirectory tree (relDirOf m) = Some False}"
    using legacyAppLoop_set [OF g2 def] by blast
  obtain d3 where d3: "infraLoop tree clusters infraPatterns d2 = Some d3"
    and s3: "set d3 = set d2 \<union>
         relDirOf ` {m \<in> set tree. (\<exists>p \<in> set infraPatterns. matchesPattern p m)
           \<and> \<not> (clusters \<noteq> [] \<and> Base (relDirOf m) \<notin> set clusters)}"
    using infraLoop_set [OF g3] by blast
  have "DiscoverKustomizationsForSync tree clusters = Some (sort d3)"
    by (simp add: DiscoverKustomizationsForSync_def d1 d2 d3)
  moreover have "set (sort d3) = set d3" by simp
  ultimately show ?thesis
    unfolding s3 s2 s1 by (intro exI [of _ "sort d3"]) simp
qed

lemma relDirOf_dir:
  assumes "validTree tree" "m \<in> set tree"
    and "p \<in> set (newAppPatterns @ legacyAppPatterns @ infraPatterns)" "matchesPattern p m"
    and "d \<noteq> []" "list_all validName d" "relDirOf m = Join d ''/''"
  shows "butlast m = d"
proof -
  have "5 \<le> length m" using assms(3,4) by (rule matchesPattern_length)
  then have "butlast m \<noteq> []" by (cases m rule: rev_cases) auto
  then show ?thesis
    using assms(5) valid_dir [OF assms(1,2)] assms(6) assms(7) [unfolded relDirOf_def]
    by (rule Join_names_inject)
qed

lemma extractCluster_overlays:
  assumes "list_all validName [a, c, e]"
  shows "extractClusterFromAppPath (Join [''apps'', a, ''overlays'', c, e] ''/'') = (c, True)"
proof -
  have "\<forall>n \<in> set [''apps'', a, ''overlays'', c, e]. CHR ''/'' \<notin> set n"
    using assms by (auto simp: validName_def)
  then have "Split (Join [''apps'', a, ''overlays'', c, e] ''/'') ''/'' = [''apps'', a, ''overlays'', c, e]"
    by (intro Split_Join_names) simp_all
  then show ?thesis
    by (simp add: extractClusterFromAppPath_def)
qed

lemma new_overlay_discovered:
  assumes valid: "validTree tree"
    and entry: "[''apps'', a, ''overlays'', c, e, ''kustomization.yaml''] \<in> set tree"
    and dirs: "DiscoverKustomizationsForSync tree clusters = Some dirs"
  shows "Join [''apps'', a, ''overlays'', c, e] ''/'' \<in> set dirs \<longleftrightarrow>
           clusters = [] \<or> c \<in> set clusters"
proof -
  let ?e = "[''apps'', a, ''overlays'', c, e, ''kustomization.yaml'']"
  let ?d = "[''apps'', a, ''overlays'', c, e]"
  define s where "s = Join ?d ''/''"
  have vd: "list_all validName ?d"
    using valid_dir [OF valid entry] by simp
  then have ex: "extractClusterFromAppPath s = (c, True)"
    unfolding s_def by (intro extractCluster_overlays) simp
  have rel: "relDirOf ?e = s" by (simp add: relDirOf_def s_def)
  from Discover_set [OF valid, of clusters] dirs
  have set: "set dirs =
     relDirOf ` {m \<in> set tree. (\<exists>p \<in> set newAppPatterns. matchesPattern p m)
           \<and> \<not> (clusters \<noteq> [] \<and> snd (extractClusterFromAppPath (relDirOf m))
                \<and> fst (extractClusterFromAppPath (relDirOf m)) \<notin> set clusters)}
     \<union> relDirOf ` {m \<in> set tree. (\<exists>p \<in> set legacyAppPatterns. matchesPattern p m)
           \<and> isClusterDirectory tree (relDirOf m) = Some False}
     \<union> relDirOf ` {m \<in> set tree. (\<exists>p \<in> set infraPatterns. matchesPattern p m)
           \<and> \<not> (clusters \<noteq> [] \<and> Base (relDirOf m) \<notin> set clusters)}"
    by auto
  have "s \<in> set dirs \<longleftrightarrow> clusters = [] \<or> c \<in> set clusters"
  proof
    assume "s \<in> set dirs"
    then consider
      (new) m where "m \<in> set tree" "\<exists>p \<in> set newAppPatterns. matchesPattern p m"
        "\<not> (clusters \<noteq> [] \<and> snd (extractClusterFromAppPath (relDirOf m))
                \<and> fst (extractClusterFromAppPath (relDirOf m)) \<notin> set clusters)" "relDirOf m = s"
      | (legacy) m where "m \<in> set tree" "\<exists>p \<in> set legacyAppPatterns. matchesPattern p m"
        "relDirOf m = s"
      | (infra) m where "m \<in> set tree" "\<exists>p \<in> set infraPatterns. matchesPattern p m"
        "relDirOf m = s"
      unfolding set by blast
    then show "clusters = [] \<or> c \<in> set clusters"
    proof cases
      case new
      then show ?thesis by (simp add: ex)
    next
      case legacy
      then obtain p where p: "p \<in> set legacyAppPatterns" "matchesPattern p m" by blast
      have "butlast m = ?d"
        using relDirOf_dir [OF valid legacy(1) _ p(2) _ vd legacy(3) [unfolded s_def]] p(1) by simp
      moreover have "\<exists>a e. m = [''apps'', a, ''overlays'', e, ''kustomization.yaml'']
        \<or> m = [''apps'', a, ''stack'', e, ''kustomization.yaml'']
        \<or> m = [''apps'', a, ''db'', ''overlays'', e, ''kustomization.yaml'']"
        using legacy(2) by (simp only: matchesPattern_legacy)
      ultimately show ?thesis by auto
    next
      case infra
      then obtain p where p: "p \<in> set infraPatterns" "matchesPattern p m" by blast
      have "butlast m = ?d"
        using relDirOf_dir [OF valid infra(1) _ p(2) _ vd infra(3) [unfolded s_def]] p(1) by simp
      moreover have "\<exists>a e. m = [''infrastructure'', a, ''overlays'', e, ''kustomization.yaml'']
        \<or> m = [''operators'', a, ''overlays'', e, ''kustomization.yaml'']
        \<or> m = [''security'', a, ''overlays'', e, ''kustomization.yaml'']"
        using infra(2) by (simp only: matchesPattern_infra)
      ultimately show ?thesis by auto
    qed
  next
    assume keep: "clusters = [] \<or> c \<in> set clusters"
    have "\<exists>p \<in> set newAppPatterns. matchesPattern p ?e"
      unfolding matchesPattern_new by blast
    with entry keep have "?e \<in> {m \<in> set tree. (\<exists>p \<in> set newAppPatterns. matchesPattern p m)
           \<and> \<not> (clusters \<noteq> [] \<and> snd (extractClusterFromAppPath (relDirOf m))
                \<and> fst (extractClusterFromAppPath (relDirOf m)) \<notin> set clusters)}"
      by (auto simp: rel ex)
    then have "relDirOf ?e \<in> set dirs"
      unfolding set by blast
    then show "s \<in> set dirs" by (simp only: rel)
  qed
  then show ?thesis by (simp only: s_def)
qed

lemma legacy_overlay_discovered:
  assumes valid: "validTree tree"
    and entry: "[''apps'', a, ''overlays'', e, ''kustomization.yaml''] \<in> set tree"
    and leaf: "\<forall>x. [''apps'', a, ''overlays'', e, x, ''kustomization.yaml''] \<notin> set tree"
    and dirs: "DiscoverKustomizationsForSync tree clusters = Some dirs"
  shows "Join [''apps'', a, ''overlays'', e] ''/'' \<in> set dirs"
proof -
  let ?e = "[''apps'', a, ''overlays'', e, ''kustomization.yaml'']"
  define s where "s = Join [''apps'', a, ''overlays'', e] ''/''"
  have rel: "relDirOf ?e = s" by (simp add: relDirOf_def s_def)
  have m: "\<exists>p \<in> set legacyAppPatterns. matchesPattern p ?e"
    unfolding matchesPattern_legacy by blast
  have "isClusterDirectory tree (relDirOf ?e) = Some False"
    using legacy_defined [OF valid entry m] leaf by simp
  with entry m have "?e \<in> {m \<in> set tree. (\<exists>p \<in> set legacyAppPatterns. matchesPattern p m)
           \<and> isClusterDirectory tree (relDirOf m) = Some False}"
    by simp
  moreover from Discover_set [OF valid, of clusters] dirs
  have "relDirOf ` {m \<in> set tree. (\<exists>p \<in> set legacyAppPatterns. matchesPattern p m)
           \<and> isClusterDirectory tree (relDirOf m) = Some False} \<subseteq> set dirs"
    by auto
  ultimately have "relDirOf ?e \<in> set dirs" by blast
  then have "s \<in> set dirs" by (simp only: rel)
  then show ?thesis by (simp only: s_def)
qed

lemma container_not_discovered:
  assumes valid: "validTree tree"
    and entry: "[''apps'', a, ''overlays'', c, ''kustomization.yaml''] \<in> set tree"
    and child: "[''apps'', a, ''overlays'', c, e, ''kustomization.yaml''] \<in> set tree"
    and dirs: "DiscoverKustomizationsForSync tree clusters = Some dirs"
  shows "Join [''apps'', a, ''overlays'', c] ''/'' \<notin> set dirs"
proof -
  let ?e = "[''apps'', a, ''overlays'', c, ''kustomization.yaml'']"
  let ?d = "[''apps'', a, ''overlays'', c]"
  define s where "s = Join ?d ''/''"
  have vd: "list_all validName ?d"
    using valid_dir [OF valid entry] by simp
  have "isClusterDirectory tree s = Some (\<exists>x. ?d @ [x, ''kustomization.yaml''] \<in> set tree)"
    unfolding s_def using vd by (intro isClusterDirectory_valid) simp_all
  moreover have "\<exists>x. ?d @ [x, ''kustomization.yaml''] \<in> set tree"
    using child by (intro exI [of _ e]) simp
  ultimately have cluster: "isClusterDirectory tree s = Some True" by simp
  from Discover_set [OF valid, of clusters] dirs
  have set: "set dirs =
     relDirOf ` {m \<in> set tree. (\<exists>p \<in> set newAppPatterns. matchesPattern p m)
           \<and> \<not> (clusters \<noteq> [] \<and> snd (extractClusterFromAppPath (relDirOf m))
                \<and> fst (extractClusterFromAppPath (relDirOf m)) \<notin> set clusters)}
     \<union> relDirOf ` {m \<in> set tree. (\<exists>p \<in> set legacyAppPatterns. matchesPattern p m)
           \<and> isClusterDirectory tree (relDirOf m) = Some False}
     \<union> relDirOf ` {m \<in> set tree. (\<exists>p \<in> set infraPatterns. matchesPattern p m)
           \<and> \<not> (clusters \<noteq> [] \<and> Base (relDirOf m) \<notin> set clusters)}"
    by auto
  have "s \<notin> set dirs"
  proof
    assume "s \<in> set dirs"
    then consider
      (new) m where "m \<in> set tree" "\<exists>p \<in> set newAppPatterns. matchesPattern p m"
        "relDirOf m = s"
      | (legacy) m where "isClusterDirectory tree (relDirOf m) = Some False" "relDirOf m = s"
      | (infra) m where "m \<in> set tree" "\<exists>p \<in> set infraPatterns. matchesPattern p m"
        "relDirOf m = s"
      unfolding set by blast
    then show False
    proof cases
      case new
      then obtain p where p: "p \<in> set newAppPatterns" "matchesPattern p m" by blast
      have "butlast m = ?d"
        using relDirOf_dir [OF valid new(1) _ p(2) _ vd new(3) [unfolded s_def]] p(1) by simp
      moreover have "\<exists>a c e. m = [''apps'', a, ''overlays'', c, e, ''kustomization.yaml'']
        \<or> m = [''apps'', a, ''stack'', c, e, ''kustomization.yaml'']
        \<or> m = [''apps'', a, ''db'', ''overlays'', c, e, ''kustomization.yaml'']"
        using new(2) by (simp only: matchesPattern_new)
      ultimately show ?thesis by auto
    next
      case legacy
      with cluster show ?thesis by simp
    next
      case infra
      then obtain p where p: "p \<in> set infraPatterns" "matchesPattern p m" by blast
      have "butlast m = ?d"
        using relDirOf_dir [OF valid infra(1) _ p(2) _ vd infra(3) [unfolded s_def]] p(1) by simp
      moreover have "\<exists>a e. m = [''infrastructure'', a, ''overlays'', e, ''kustomization.yaml'']
        \<or> m = [''operators'', a, ''overlays'', e, ''kustomization.yaml'']
        \<or> m = [''security'', a, ''overlays'', e, ''kustomization.yaml'']"
        using infra(2) by (simp only: matchesPattern_infra)
      ultimately show ?thesis by auto
    qed
  qed
  then show ?thesis unfolding s_def .
qed

lemma Discover_defined:
  assumes "validTree tree"
  shows "\<exists>dirs. DiscoverKustomizationsForSync tree clusters = Some dirs"
  using Discover_set [OF assms, of clusters] by (elim exE conjE) (rule exI)

text \<open>
  Claim C6. In a repository whose names are non-empty and contain neither the separator
  nor a character that \<open>Glob\<close> reads as part of a pattern, discovery returns a list
  such that, for every cluster filter: a directory \<open>apps/a/overlays/c/e\<close> with a build
  descriptor is in the list exactly when the filter is empty or contains \<open>c\<close>, and a
  directory \<open>apps/a/overlays/e\<close> with a build descriptor and without a subdirectory
  that has one is in the list whatever the filter is.
\<close>

theorem discovery_cluster_filter:
  assumes "validTree tree"
  shows "\<exists>dirs. DiscoverKustomizationsForSync tree clusters = Some dirs
     \<and> (\<forall>a c e. [''apps'', a, ''overlays'', c, e, ''kustomization.yaml''] \<in> set tree \<longrightarrow>
           (Join [''apps'', a, ''overlays'', c, e] ''/'' \<in> set dirs
              \<longleftrightarrow> clusters = [] \<or> c \<in> set clusters))
     \<and> (\<forall>a e. [''apps'', a, ''overlays'', e, ''kustomization.yaml''] \<in> set tree
             \<and> (\<forall>x. [''apps'', a, ''overlays'', e, x, ''kustomization.yaml''] \<notin> set tree) \<longrightarrow>
           Join [''apps'', a, ''overlays'', e] ''/'' \<in> set dirs)"
proof -
  from Discover_defined [OF assms, of clusters]
  obtain dirs where dirs: "DiscoverKustomizationsForSync tree clusters = Some dirs" ..
  have new: "Join [''apps'', a, ''overlays'', c, e] ''/'' \<in> set dirs
              \<longleftrightarrow> clusters = [] \<or> c \<in> set clusters"
    if "[''apps'', a, ''overlays'', c, e, ''kustomization.yaml''] \<in> set tree" for a c e
    using assms that dirs by (rule new_overlay_discovered)
  have legacy: "Join [''apps'', a, ''overlays'', e] ''/'' \<in> set dirs"
    if "[''apps'', a, ''overlays'', e, ''kustomization.yaml''] \<in> set tree
             \<and> (\<forall>x. [''apps'', a, ''overlays'', e, x, ''kustomization.yaml''] \<notin> set tree)" for a e
  proof -
    from that have "[''apps'', a, ''overlays'', e, ''kustomization.yaml''] \<in> set tree"
      and "\<forall>x. [''apps'', a, ''overlays'', e, x, ''kustomization.yaml''] \<notin> set tree"
      by (rule conjunct1, rule conjunct2)
    with assms show ?thesis using dirs by (rule legacy_overlay_discovered)
  qed
  show ?thesis
  proof (intro exI conjI allI impI)
    show "DiscoverKustomizationsForSync tree clusters = Some dirs" by (rule dirs)
  next
    fix a c e
    assume "[''apps'', a, ''overlays'', c, e, ''kustomization.yaml''] \<in> set tree"
    then show "Join [''apps'', a, ''overlays'', c, e] ''/'' \<in> set dirs
              \<longleftrightarrow> clusters = [] \<or> c \<in> set clusters"
      by (rule new)
  next
    fix a e
    assume "[''apps'', a, ''overlays'', e, ''kustomization.yaml''] \<in> set tree
             \<and> (\<forall>x. [''apps'', a, ''overlays'', e, x, ''kustomization.yaml''] \<notin> set tree)"
    then show "Join [''apps'', a, ''overlays'', e] ''/'' \<in> set dirs"
      by (rule legacy)
  qed
qed

theorem discovery_cluster_filter_witness:
  "validTree exTree
   \<and> (\<exists>dirs. DiscoverKustomizationsForSync exTree [''erauner-home''] = Some dirs
        \<and> ''apps/coder/overlays/erauner-home/production'' \<in> set dirs
        \<and> ''apps/coder/overlays/erauner-cloud/production'' \<notin> set dirs
        \<and> ''apps/krr/overlays/production'' \<in> set dirs)"
proof -
  have v: "validTree exTree"
    by code_simp
  from discovery_cluster_filter [OF v, of "[''erauner-home'']"]
  obtain dirs where d: "DiscoverKustomizationsForSync exTree [''erauner-home''] = Some dirs"
    and new: "\<And>a c e. [''apps'', a, ''overlays'', c, e, ''kustomization.yaml''] \<in> set exTree \<Longrightarrow>
           (Join [''apps'', a, ''overlays'', c, e] ''/'' \<in> set dirs
              \<longleftrightarrow> [''erauner-home''] = ([]::string list) \<or> c \<in> set [''erauner-home''])"
    and legacy: "\<And>a e. [''apps'', a, ''overlays'', e, ''kustomization.yaml''] \<in> set exTree
             \<and> (\<forall>x. [''apps'', a, ''overlays'', e, x, ''kustomization.yaml''] \<notin> set exTree) \<Longrightarrow>
           Join [''apps'', a, ''overlays'', e] ''/'' \<in> set dirs"
    by blast
  have a: "''apps/coder/overlays/erauner-home/production'' \<in> set dirs"
    using new [of "''coder''" "''erauner-home''" "''production''"] by (simp add: exTree_def)
  have b: "''apps/coder/overlays/erauner-cloud/production'' \<notin> set dirs"
    using new [of "''coder''" "''erauner-cloud''" "''production''"] by (simp add: exTree_def)
  have c: "''apps/krr/overlays/production'' \<in> set dirs"
    using legacy [of "''krr''" "''production''"] by (simp add: exTree_def)
  from d a b c have "\<exists>dirs. DiscoverKustomizationsForSync exTree [''erauner-home''] = Some dirs
        \<and> ''apps/coder/overlays/erauner-home/production'' \<in> set dirs
        \<and> ''apps/coder/overlays/erauner-cloud/production'' \<notin> set dirs
        \<and> ''apps/krr/overlays/production'' \<in> set dirs"
    by blast
  with v show ?thesis by (rule conjI)
qed

text \<open>
  Claim C7. In a repository whose names are non-empty and contain neither the separator
  nor a character that \<open>Glob\<close> reads as part of a pattern, when
  \<open>apps/a/overlays/c\<close> has a build descriptor of its own and a subdirectory \<open>e\<close>
  with a build descriptor, discovery with an empty cluster filter returns a list that
  does not contain \<open>apps/a/overlays/c\<close> and does contain
  \<open>apps/a/overlays/c/e\<close>.
\<close>

theorem discovery_cluster_container:
  assumes "validTree tree"
    and "[''apps'', a, ''overlays'', c, ''kustomization.yaml''] \<in> set tree"
    and "[''apps'', a, ''overlays'', c, e, ''kustomization.yaml''] \<in> set tree"
  shows "\<exists>dirs. DiscoverKustomizationsForSync tree [] = Some dirs
     \<and> Join [''apps'', a, ''overlays'', c] ''/'' \<notin> set dirs
     \<and> Join [''apps'', a, ''overlays'', c, e] ''/'' \<in> set dirs"
proof -
  from Discover_defined [OF assms(1), of "[]"]
  obtain dirs where dirs: "DiscoverKustomizationsForSync tree [] = Some dirs" ..
  have no: "Join [''apps'', a, ''overlays'', c] ''/'' \<notin> set dirs"
    using assms dirs by (rule container_not_discovered)
  have "Join [''apps'', a, ''overlays'', c, e] ''/'' \<in> set dirs \<longleftrightarrow>
      [] = ([]::string list) \<or> c \<in> set []"
    using assms(1,3) dirs by (rule new_overlay_discovered)
  then have yes: "Join [''apps'', a, ''overlays'', c, e] ''/'' \<in> set dirs"
    by (rule iffD2) (rule disjI1, rule refl)
  from dirs no yes show ?thesis
    by (intro exI conjI)
qed

theorem discovery_cluster_container_witness:
  "\<exists>dirs. DiscoverKustomizationsForSync exTree [] = Some dirs
     \<and> ''apps/coder/overlays/erauner-home'' \<notin> set dirs
     \<and> ''apps/coder/overlays/erauner-home/production'' \<in> set dirs"
proof -
  have v: "validTree exTree"
    by code_simp
  have h1: "[''apps'', ''coder'', ''overlays'', ''erauner-home'', ''kustomization.yaml''] \<in> set exTree"
    by (simp add: exTree_def)
  have h2: "[''apps'', ''coder'', ''overlays'', ''erauner-home'', ''production'', ''kustomization.yaml'']
      \<in> set exTree"
    by (simp add: exTree_def)
  from discovery_cluster_container [OF v h1 h2] show ?thesis
    by simp
qed

end
